theory Spec2Isabelle
  imports Main "HOL-Library.AList"
begin

section \<open>Strings\<close>

text \<open>
  A Python \<open>str\<close> is a sequence of Unicode code points; it is modelled as a list of
  natural numbers, one per code point. String constants of the source that are plain
  ASCII are written with \<open>ascii\<close>.
\<close>

type_synonym str = "nat list"

definition ascii :: "string \<Rightarrow> str" where
  "ascii cs = map of_char cs"

text \<open>
  The code points on which \<open>str.isspace\<close> holds; \<open>str.strip()\<close> and the
  regular-expression class \<open>\s\<close> of a \<open>str\<close> pattern both use this set.
\<close>

definition isspace :: "nat \<Rightarrow> bool" where
  "isspace c \<longleftrightarrow>
     (9 \<le> c \<and> c \<le> 13) \<or> (28 \<le> c \<and> c \<le> 32) \<or> c = 133 \<or> c = 160 \<or> c = 5760 \<or>
     (8192 \<le> c \<and> c \<le> 8202) \<or> c = 8232 \<or> c = 8233 \<or> c = 8239 \<or> c = 8287 \<or> c = 12288"

text \<open>\<open>raw.strip()\<close>: leading and trailing whitespace removed.\<close>

definition strip :: "str \<Rightarrow> str" where
  "strip s = rev (dropWhile isspace (rev (dropWhile isspace s)))"

text \<open>\<open>line.startswith(p)\<close>.\<close>

definition startswith :: "str \<Rightarrow> str \<Rightarrow> bool" where
  "startswith s p \<longleftrightarrow> take (length p) s = p"

section \<open>Regular expressions of the parser\<close>

text \<open>
  The four patterns of \<open>parse_mp\<close> are sequences of quantified single-character
  classes, some of them capturing, and the anchor \<open>$\<close>:
  \<^item> a class is a literal character, \<open>\s\<close>, or \<open>.\<close> (any character but newline);
  \<open>re.match\<close> is called without flags;
  \<^item> a quantifier is none, \<open>?\<close>, \<open>+\<close>, \<open>*\<close> (greedy) or \<open>+?\<close>, \<open>*?\<close> (lazy);
  \<^item> \<open>Tok q c True\<close> is the capturing group \<open>(cq)\<close>, \<open>Tok q c False\<close> is \<open>cq\<close>.
\<close>

datatype cclass = Lit nat | Space | Dot

datatype quant = One | Opt | Plus | Star | LazyPlus | LazyStar

datatype item = Tok quant cclass bool | Eol

fun cmatch :: "cclass \<Rightarrow> nat \<Rightarrow> bool" where
  "cmatch (Lit a) c = (c = a)"
| "cmatch Space c = isspace c"
| "cmatch Dot c = (c \<noteq> 10)"

text \<open>
  \<open>push g acc r\<close> records the text \<open>acc\<close> of an item in front of the groups \<open>r\<close> of
  the rest of the pattern when the item is a capturing group.
\<close>

definition push :: "bool \<Rightarrow> str \<Rightarrow> str list option \<Rightarrow> str list option" where
  "push g acc r = (if g then map_option (\<lambda>ts. acc # ts) r else r)"

text \<open>
  \<open>rmatch items s acc\<close> is the backtracking matcher of \<open>re.match\<close>, anchored at the
  start of \<open>s\<close>: it returns the groups of the first match in the order in which a
  backtracking matcher tries them (a greedy quantifier takes one more character first and
  gives it back if the rest of the pattern fails, a lazy one tries the rest of the
  pattern first), or \<open>None\<close>. \<open>acc\<close> is the text the first item has taken so far.
  \<open>$\<close> matches at the end of the string and before a newline that ends the string.
\<close>

fun rmatch :: "item list \<Rightarrow> str \<Rightarrow> str \<Rightarrow> str list option" where
  "rmatch [] s acc = Some []"
| "rmatch (Eol # is) s acc = (if s = [] \<or> s = [10] then rmatch is s [] else None)"
| "rmatch (Tok One c g # is) [] acc = None"
| "rmatch (Tok One c g # is) (x # xs) acc =
     (if cmatch c x then push g [x] (rmatch is xs []) else None)"
| "rmatch (Tok Opt c g # is) [] acc = push g [] (rmatch is [] [])"
| "rmatch (Tok Opt c g # is) (x # xs) acc =
     (if cmatch c x then
        (case push g [x] (rmatch is xs []) of
           Some r \<Rightarrow> Some r
         | None \<Rightarrow> push g [] (rmatch is (x # xs) []))
      else push g [] (rmatch is (x # xs) []))"
| "rmatch (Tok Plus c g # is) [] acc = None"
| "rmatch (Tok Plus c g # is) (x # xs) acc =
     (if cmatch c x then rmatch (Tok Star c g # is) xs [x] else None)"
| "rmatch (Tok Star c g # is) [] acc = push g acc (rmatch is [] [])"
| "rmatch (Tok Star c g # is) (x # xs) acc =
     (if cmatch c x then
        (case rmatch (Tok Star c g # is) xs (acc @ [x]) of
           Some r \<Rightarrow> Some r
         | None \<Rightarrow> push g acc (rmatch is (x # xs) []))
      else push g acc (rmatch is (x # xs) []))"
| "rmatch (Tok LazyPlus c g # is) [] acc = None"
| "rmatch (Tok LazyPlus c g # is) (x # xs) acc =
     (if cmatch c x then rmatch (Tok LazyStar c g # is) xs [x] else None)"
| "rmatch (Tok LazyStar c g # is) [] acc = push g acc (rmatch is [] [])"
| "rmatch (Tok LazyStar c g # is) (x # xs) acc =
     (case push g acc (rmatch is (x # xs) []) of
        Some r \<Rightarrow> Some r
      | None \<Rightarrow> if cmatch c x then rmatch (Tok LazyStar c g # is) xs (acc @ [x]) else None)"

text \<open>\<open>re.match(rx, s)\<close>, as the list of its groups.\<close>

definition re_match :: "item list \<Rightarrow> str \<Rightarrow> str list option" where
  "re_match rx s = rmatch rx s []"

text \<open>A run of literal characters, and the pieces the four patterns share.\<close>

definition lits :: "string \<Rightarrow> item list" where
  "lits cs = map (\<lambda>c. Tok One (Lit (of_char c)) False) cs"

definition spaces :: "item list" where
  "spaces = [Tok Plus Space False]"

definition quoted :: "item list" where
  "quoted = [Tok One (Lit 34) False, Tok LazyPlus Dot True, Tok One (Lit 34) False]"

text \<open>\<^verbatim>\<open>graph\s+"(.+?)"\<close>\<close>

definition graph_re :: "item list" where
  "graph_re = lits ''graph'' @ spaces @ quoted"

text \<open>\<^verbatim>\<open>component\s+"(.+?)"\s+of\s+"(.+?)"\<close>\<close>

definition component_re :: "item list" where
  "component_re = lits ''component'' @ spaces @ quoted @ spaces @ lits ''of'' @ spaces @ quoted"

text \<open>\<^verbatim>\<open>parameter\s+"(.+?)"\s+=\s+"?(.*?)"?;?$\<close>\<close>

definition parameter_re :: "item list" where
  "parameter_re = lits ''parameter'' @ spaces @ quoted @ spaces @ lits ''='' @ spaces
     @ [Tok Opt (Lit 34) False, Tok LazyStar Dot True, Tok Opt (Lit 34) False,
        Tok Opt (Lit 59) False, Eol]"

text \<open>\<^verbatim>\<open>connect\s+"(.+?)"\s+to\s+"(.+?)"\<close>\<close>

definition connect_re :: "item list" where
  "connect_re = lits ''connect'' @ spaces @ quoted @ spaces @ lits ''to'' @ spaces @ quoted"

text \<open>
  \<open>m.group(1)\<close> of a pattern with one group and \<open>m.groups()\<close> of a pattern with two,
  \<open>None\<close> when there is no match.
\<close>

definition group1 :: "str list option \<Rightarrow> str option" where
  "group1 m = (case m of Some [a] \<Rightarrow> Some a | _ \<Rightarrow> None)"

definition groups2 :: "str list option \<Rightarrow> (str \<times> str) option" where
  "groups2 m = (case m of Some [a, b] \<Rightarrow> Some (a, b) | _ \<Rightarrow> None)"

section \<open>The parser \<open>parse_mp\<close>\<close>

datatype error = KeyError str

text \<open>
  The dictionaries of the source keep their keys in insertion order; they are association
  lists with \<open>map_of\<close> for the lookup and \<open>AList.update\<close> for the assignment
  \<open>d[k] = v\<close>, which overwrites in place or appends a new key at the end.
\<close>

record component =
  type :: str
  parameters :: "(str \<times> str) list"

record graph =
  graph_name :: str
  components :: "(str \<times> component) list"
  connections :: "(str \<times> str) list"

text \<open>The truth value of \<open>current\<close>: \<open>None\<close> and the empty string are false.\<close>

definition truthy :: "str option \<Rightarrow> bool" where
  "truthy current \<longleftrightarrow> (case current of None \<Rightarrow> False | Some name \<Rightarrow> name \<noteq> [])"

text \<open>
  The body of the loop \<open>for raw in fh\<close>, on the state \<open>(graph, current)\<close>. The loops of
  \<open>parse_mp_file\<close> in abinitiotodoc.py and of \<open>parse_mp\<close> in geminiabinitio.py are the
  same statements under other variable names.
\<close>

definition parse_line :: "graph \<times> str option \<Rightarrow> str \<Rightarrow> error + graph \<times> str option" where
  "parse_line st raw =
     (let graph = fst st; current = snd st; line = strip raw in
      if startswith line (ascii ''graph'') then
        (case group1 (re_match graph_re line) of
           Some name \<Rightarrow> Inr (graph\<lparr>graph_name := name\<rparr>, current)
         | None \<Rightarrow> Inr st)
      else if startswith line (ascii ''component'') then
        (case groups2 (re_match component_re line) of
           Some (name, ctype) \<Rightarrow>
             Inr (graph\<lparr>components :=
                    AList.update name \<lparr>type = ctype, parameters = []\<rparr> (components graph)\<rparr>,
                  Some name)
         | None \<Rightarrow> Inr st)
      else if startswith line (ascii ''parameter'') \<and> truthy current then
        (case groups2 (re_match parameter_re line) of
           Some (pname, pval) \<Rightarrow>
             (case map_of (components graph) (the current) of
                None \<Rightarrow> Inl (KeyError (the current))
              | Some meta \<Rightarrow>
                  Inr (graph\<lparr>components :=
                         AList.update (the current)
                           (meta\<lparr>parameters := AList.update pname pval (parameters meta)\<rparr>)
                           (components graph)\<rparr>,
                       current))
         | None \<Rightarrow> Inr st)
      else if startswith line (ascii ''connect'') then
        (case groups2 (re_match connect_re line) of
           Some (src, dst) \<Rightarrow>
             Inr (graph\<lparr>connections := connections graph @ [(src, dst)]\<rparr>, current)
         | None \<Rightarrow> Inr st)
      else Inr st)"

fun parse_lines :: "graph \<times> str option \<Rightarrow> str list \<Rightarrow> error + graph \<times> str option" where
  "parse_lines st [] = Inr st"
| "parse_lines st (raw # rest) =
     (case parse_line st raw of Inl e \<Rightarrow> Inl e | Inr st' \<Rightarrow> parse_lines st' rest)"

definition initial :: "graph \<times> str option" where
  "initial = (\<lparr>graph_name = [], components = [], connections = []\<rparr>, None)"

text \<open>\<open>parse_mp\<close> on the lines the file iterator yields.\<close>

definition parse_mp :: "str list \<Rightarrow> error + graph" where
  "parse_mp lines =
     (case parse_lines initial lines of Inl e \<Rightarrow> Inl e | Inr st \<Rightarrow> Inr (fst st))"

text \<open>A line that none of the four patterns matches.\<close>

definition no_shape :: "str \<Rightarrow> bool" where
  "no_shape raw \<longleftrightarrow>
     re_match graph_re (strip raw) = None \<and> re_match component_re (strip raw) = None \<and>
     re_match parameter_re (strip raw) = None \<and> re_match connect_re (strip raw) = None"

text \<open>
  The four statement shapes, each as what its pattern captures from the trimmed line.
\<close>

definition graph_decl :: "str \<Rightarrow> str option" where
  "graph_decl raw = group1 (re_match graph_re (strip raw))"

definition component_decl :: "str \<Rightarrow> (str \<times> str) option" where
  "component_decl raw = groups2 (re_match component_re (strip raw))"

definition parameter_decl :: "str \<Rightarrow> (str \<times> str) option" where
  "parameter_decl raw = groups2 (re_match parameter_re (strip raw))"

definition connect_decl :: "str \<Rightarrow> (str \<times> str) option" where
  "connect_decl raw = groups2 (re_match connect_re (strip raw))"

text \<open>
  The name the specification gives a model: the quoted string of the last line of the
  graph-declaration shape, the empty string when there is none.
\<close>

definition last_graph_name :: "str list \<Rightarrow> str" where
  "last_graph_name lines =
     (case List.map_filter graph_decl lines of [] \<Rightarrow> [] | n # ns \<Rightarrow> last (n # ns))"

text \<open>
  The invariant of the loop that keeps \<open>graph["components"][current]\<close> from raising:
  a current component is a key of \<open>components\<close>.
\<close>

definition cur_ok :: "graph \<times> str option \<Rightarrow> bool" where
  "cur_ok st \<longleftrightarrow> (truthy (snd st) \<longrightarrow> map_of (components (fst st)) (the (snd st)) \<noteq> None)"

text \<open>The items of a pattern that are capturing groups.\<close>

fun capturing :: "item \<Rightarrow> bool" where
  "capturing (Tok q c g) = g"
| "capturing Eol = False"

text \<open>
  The entry of \<open>name\<close> has the type \<open>ctype\<close>, and each of its parameters was
  assigned by a parameter line of \<open>L\<close>.
\<close>

definition entry_from :: "str \<Rightarrow> str \<Rightarrow> str set \<Rightarrow> graph \<Rightarrow> bool" where
  "entry_from name ctype L g \<longleftrightarrow>
     (\<exists>meta. map_of (components g) name = Some meta \<and> type meta = ctype \<and>
        (\<forall>pv \<in> set (parameters meta). \<exists>l \<in> L. parameter_decl l = Some pv))"

text \<open>
  The end of the parameter pattern, \<^verbatim>\<open>"?;?$\<close>, and its value part,
  \<^verbatim>\<open>"?(.*?)"?;?$\<close>.
\<close>

definition closing :: "item list" where
  "closing = [Tok Opt (Lit 34) False, Tok Opt (Lit 59) False, Eol]"

definition value_items :: "item list" where
  "value_items = Tok Opt (Lit 34) False # Tok LazyStar Dot True # closing"

text \<open>
  The four ways the specification writes the assignment of \<open>v\<close> to the parameter
  \<open>n\<close>: the value quoted or not, the semicolon there or not.
\<close>

definition parameter_variants :: "str \<Rightarrow> str \<Rightarrow> str list" where
  "parameter_variants n v =
     [ascii ''parameter \"'' @ n @ ascii ''\" = \"'' @ v @ ascii ''\";'',
      ascii ''parameter \"'' @ n @ ascii ''\" = \"'' @ v @ ascii ''\"'',
      ascii ''parameter \"'' @ n @ ascii ''\" = '' @ v @ ascii '';'',
      ascii ''parameter \"'' @ n @ ascii ''\" = '' @ v]"

section \<open>The flow analyzer\<close>

text \<open>
  The successor lookup of \<open>build_doc\<close>,
  \<^verbatim>\<open>[dst for src, dst in graph["connections"] if src == comp]\<close>.
\<close>

fun outs :: "(str \<times> str) list \<Rightarrow> str \<Rightarrow> str list" where
  "outs [] node = []"
| "outs ((src, dst) # rest) node =
     (if src = node then dst # outs rest node else outs rest node)"

text \<open>
  \<open>out_edges\<close> is a \<open>defaultdict(list)\<close>: reading a key that is not there gives
  the empty list. (The read also stores the empty list under the key; no later read can
  tell.)
\<close>

definition lookup_default :: "(str \<times> str list) list \<Rightarrow> str \<Rightarrow> str list" where
  "lookup_default out_edges n = (case map_of out_edges n of None \<Rightarrow> [] | Some ms \<Rightarrow> ms)"

text \<open>
  \<open>topological_sort\<close>, first loop: \<open>for src, dst in edges\<close>. \<open>indeg\<close> is a
  plain dictionary, so \<open>indeg[dst] += 1\<close> raises \<open>KeyError\<close> for a \<open>dst\<close> that is
  not one of the nodes.
\<close>

fun topo_count ::
  "(str \<times> str) list \<Rightarrow> (str \<times> str list) list \<times> (str \<times> int) list \<Rightarrow>
   error + (str \<times> str list) list \<times> (str \<times> int) list" where
  "topo_count [] (out_edges, indeg) = Inr (out_edges, indeg)"
| "topo_count ((src, dst) # edges) (out_edges, indeg) =
     (case map_of indeg dst of
        None \<Rightarrow> Inl (KeyError dst)
      | Some d \<Rightarrow>
          topo_count edges
            (AList.update src (lookup_default out_edges src @ [dst]) out_edges,
             AList.update dst (d + 1) indeg))"

text \<open>
  The loop \<open>for m in out_edges[n]\<close> inside the \<open>while\<close> loop, on the state
  \<open>(indeg, q)\<close>.
\<close>

fun topo_visit ::
  "str list \<Rightarrow> (str \<times> int) list \<times> str list \<Rightarrow> error + (str \<times> int) list \<times> str list" where
  "topo_visit [] (indeg, q) = Inr (indeg, q)"
| "topo_visit (m # ms) (indeg, q) =
     (case map_of indeg m of
        None \<Rightarrow> Inl (KeyError m)
      | Some d \<Rightarrow>
          topo_visit ms (AList.update m (d - 1) indeg, if d - 1 = 0 then q @ [m] else q))"

text \<open>
  The \<open>while q\<close> loop. It ends because each round takes one node from the queue, and a
  node enters the queue only when its counter goes from one to zero: the length of the
  queue plus the number of positive counters goes down by one in each round.
\<close>

definition positive :: "(str \<times> int) list \<Rightarrow> nat" where
  "positive indeg = length (filter (\<lambda>kv. 0 < snd kv) indeg)"

lemma filter_update_count:
  "map_of al k = Some d \<Longrightarrow>
   length (filter P (AList.update k v al)) + (if P (k, d) then 1 else 0) =
   length (filter P al) + (if P (k, v) then 1 else 0)"
  by (induction al) (auto split: if_splits)

lemma topo_visit_measure:
  "topo_visit ms (indeg, q) = Inr (indeg', q') \<Longrightarrow>
   length q' + positive indeg' = length q + positive indeg"
proof (induction ms arbitrary: indeg q)
  case Nil
  then show ?case by simp
next
  case (Cons m ms)
  from Cons.prems obtain d where d: "map_of indeg m = Some d"
    and rest: "topo_visit ms (AList.update m (d - 1) indeg, if d - 1 = 0 then q @ [m] else q) =
      Inr (indeg', q')"
    by (auto split: option.splits)
  from filter_update_count[OF d, of "\<lambda>kv. 0 < snd kv" "d - 1"]
  have "positive (AList.update m (d - 1) indeg) + (if 0 < d then 1 else 0) =
      positive indeg + (if 1 < d then 1 else 0)"
    by (simp add: positive_def)
  with Cons.IH[OF rest] show ?case by (auto split: if_splits)
qed

function topo_loop ::
  "(str \<times> str list) list \<Rightarrow> (str \<times> int) list \<Rightarrow> str list \<Rightarrow> str list \<Rightarrow> error + str list" where
  "topo_loop out_edges indeg [] order = Inr order"
| "topo_loop out_edges indeg (n # q) order =
     (case topo_visit (lookup_default out_edges n) (indeg, q) of
        Inl e \<Rightarrow> Inl e
      | Inr (indeg', q') \<Rightarrow> topo_loop out_edges indeg' q' (order @ [n]))"
  by pat_completeness auto
termination
  by (relation "measure (\<lambda>(out_edges, indeg, q, order). length q + positive indeg)")
     (auto dest: topo_visit_measure)

text \<open>
  \<open>topological_sort(nodes, edges)\<close>. \<open>indeg = {n: 0 for n in nodes}\<close> assigns the
  keys in the order of \<open>nodes\<close>.
\<close>

definition topological_sort :: "str list \<Rightarrow> (str \<times> str) list \<Rightarrow> error + str list" where
  "topological_sort nodes edges =
     (case topo_count edges ([], fold (\<lambda>n. AList.update n 0) nodes []) of
        Inl e \<Rightarrow> Inl e
      | Inr (out_edges, indeg) \<Rightarrow>
          (case topo_loop out_edges indeg (filter (\<lambda>n. map_of indeg n = Some 0) nodes) [] of
             Inl e \<Rightarrow> Inl e
           | Inr order \<Rightarrow> Inr (if length order = length nodes then order else nodes)))"

text \<open>
  The call in \<open>build_doc\<close>:
  \<^verbatim>\<open>ordered = topological_sort(graph["components"].keys(), graph["connections"])\<close>.
\<close>

definition ordered :: "graph \<Rightarrow> error + str list" where
  "ordered g = topological_sort (map fst (components g)) (connections g)"

text \<open>
  \<open>precedes seq a b\<close>: \<open>b\<close> is in the sequence and \<open>a\<close> occurs before the first
  \<open>b\<close>.
\<close>

definition precedes :: "str list \<Rightarrow> str \<Rightarrow> str \<Rightarrow> bool" where
  "precedes seq a b \<longleftrightarrow> b \<in> set seq \<and> a \<in> set (takeWhile (\<lambda>x. x \<noteq> b) seq)"

section \<open>The invariant of the while loop\<close>

text \<open>
  \<open>indeg_left edges seen m\<close> counts the edges into \<open>m\<close> whose source has not been
  appended to the result yet; \<open>table nodes f\<close> is the dictionary with the keys
  \<open>nodes\<close> and the values \<open>f\<close>; \<open>released f ms\<close> are the nodes the inner loop
  appends to the queue when the counters are \<open>f\<close>.
\<close>

definition indeg_left :: "(str \<times> str) list \<Rightarrow> str list \<Rightarrow> str \<Rightarrow> int" where
  "indeg_left edges seen m = int (length (filter (\<lambda>e. snd e = m \<and> fst e \<notin> set seen) edges))"

definition table :: "str list \<Rightarrow> (str \<Rightarrow> int) \<Rightarrow> (str \<times> int) list" where
  "table nodes f = map (\<lambda>m. (m, f m)) nodes"

fun released :: "(str \<Rightarrow> int) \<Rightarrow> str list \<Rightarrow> str list" where
  "released f [] = []"
| "released f (m # ms) = (if f m - 1 = 0 then [m] else []) @ released (f(m := f m - 1)) ms"

text \<open>
  The invariant: the result so far and the queue are distinct nodes, they are exactly the
  nodes all of whose incoming edges come from the result so far, and each edge into the
  result so far starts earlier in it.
\<close>

definition kahn_inv :: "str list \<Rightarrow> (str \<times> str) list \<Rightarrow> str list \<Rightarrow> str list \<Rightarrow> bool" where
  "kahn_inv nodes edges q seen \<longleftrightarrow>
     distinct (seen @ q) \<and> set (seen @ q) \<subseteq> set nodes \<and>
     (\<forall>m \<in> set nodes. m \<in> set (seen @ q) \<longleftrightarrow> indeg_left edges seen m = 0) \<and>
     (\<forall>e \<in> set edges. snd e \<in> set seen \<longrightarrow> precedes seen (fst e) (snd e))"

section \<open>The descriptor catalog\<close>

text \<open>
  \<open>str.lower()\<close>, \<open>str.title()\<close> and \<open>Path(s).name\<close> are the interpreter's: the
  first two follow the case mappings of its Unicode database, the third the path flavour
  of the platform. None of them is code of the repository, so the catalog functions take
  them as the fields of a parameter \<open>py\<close>, and what is proved holds for every string
  and whatever these functions are.
\<close>

record python =
  lower :: "str \<Rightarrow> str"
  title :: "str \<Rightarrow> str"
  path_name :: "str \<Rightarrow> str"

text \<open>
  The one property of \<open>str.title()\<close> that is used: it capitalises each word, so in its
  result no lower-case letter \<open>a\<close> to \<open>z\<close> stands directly after a space.
\<close>

definition titlecases :: "python \<Rightarrow> bool" where
  "titlecases py \<longleftrightarrow>
     (\<forall>s i. Suc i < length (title py s) \<and> title py s ! i = 32 \<longrightarrow>
        \<not> (97 \<le> title py s ! Suc i \<and> title py s ! Suc i \<le> 122))"

text \<open>
  An instance of the parameter, for the examples: the case mappings of ASCII, with every
  other code point left as it is, and the identity for \<open>Path(s).name\<close>. \<open>title_from\<close>
  follows the loop of \<open>str.title()\<close>: a character is lower-cased when the character
  before it is a cased letter and title-cased otherwise. On ASCII strings \<open>lower\<close> and
  \<open>title\<close> of this instance are those of Python.
\<close>

definition lower_cp :: "nat \<Rightarrow> nat" where
  "lower_cp c = (if 65 \<le> c \<and> c \<le> 90 then c + 32 else c)"

definition upper_cp :: "nat \<Rightarrow> nat" where
  "upper_cp c = (if 97 \<le> c \<and> c \<le> 122 then c - 32 else c)"

definition cased :: "nat \<Rightarrow> bool" where
  "cased c \<longleftrightarrow> (65 \<le> c \<and> c \<le> 90) \<or> (97 \<le> c \<and> c \<le> 122)"

fun title_from :: "bool \<Rightarrow> str \<Rightarrow> str" where
  "title_from previous_is_cased [] = []"
| "title_from previous_is_cased (c # cs) =
     (if previous_is_cased then lower_cp c else upper_cp c) # title_from (cased c) cs"

definition ascii_python :: python where
  "ascii_python = \<lparr>lower = map lower_cp, title = title_from False, path_name = (\<lambda>p. p)\<rparr>"

text \<open>\<open>s.replace("_", " ")\<close>.\<close>

definition replace_underscore :: "str \<Rightarrow> str" where
  "replace_underscore s = map (\<lambda>c. if c = 95 then 32 else c) s"

text \<open>\<open>d.get(k, default)\<close> and \<open>" ".join(xs)\<close>.\<close>

definition dict_get :: "(str \<times> 'v) list \<Rightarrow> str \<Rightarrow> 'v \<Rightarrow> 'v" where
  "dict_get d k dflt = (case map_of d k of None \<Rightarrow> dflt | Some v \<Rightarrow> v)"

fun join_space :: "str list \<Rightarrow> str" where
  "join_space [] = []"
| "join_space [x] = x"
| "join_space (x # y # ys) = x @ [32] @ join_space (y # ys)"

text \<open>
  The tables of newabinitio.py. The code point 8209 is the non-breaking hyphen of the
  source text.
\<close>

definition TYPE_DESCRIPTIONS :: "(str \<times> str) list" where
  "TYPE_DESCRIPTIONS =
    [(ascii ''input_table'',
        ascii ''Reads data from a flat, delimited or fixed'' @ [8209] @
        ascii ''width file and makes it available to the graph.''),
     (ascii ''output_table'',
        ascii ''Writes data out to a flat or delimited file for downstream consumption.''),
     (ascii ''input_file'', ascii ''Ingests raw files into the processing pipeline.''),
     (ascii ''output_file'', ascii ''Persists processed records to a target file location.''),
     (ascii ''reformat'', ascii ''Transforms each input record to a new structure or layout.''),
     (ascii ''filter'', ascii ''Removes records that do not satisfy specified business rules.''),
     (ascii ''join'', ascii ''Combines two or more streams based on matching keys.''),
     (ascii ''rollup'', ascii ''Aggregates data to produce grouped totals or statistics.''),
     (ascii ''sort'',
        ascii ''Orders records on specified keys to guarantee sequence for downstream steps.''),
     (ascii ''dedup'', ascii ''Eliminates duplicate records according to business keys.''),
     (ascii ''lookup'', ascii ''Enriches a record stream with reference data.''),
     (ascii ''normalize'', ascii ''Explodes hierarchical or repeating groups into flat rows.'')]"

text \<open>The default of the lookup in \<open>describe_component\<close>.\<close>

definition type_fallback :: str where
  "type_fallback = ascii ''Performs a specialised data'' @ [8209] @ ascii ''processing step.''"

definition PARAM_FRIENDLY :: "(str \<times> str) list" where
  "PARAM_FRIENDLY =
    [(ascii ''filename'', ascii ''File path''),
     (ascii ''record_format'', ascii ''Record layout''),
     (ascii ''delimiter'', ascii ''Field delimiter''),
     (ascii ''transform'', ascii ''Transformation logic''),
     (ascii ''key'', ascii ''Key field(s)''),
     (ascii ''keys'', ascii ''Key field(s)''),
     (ascii ''join_type'', ascii ''Join type''),
     (ascii ''reject_limit'', ascii ''Maximum % of bad records allowed'')]"

text \<open>\<open>describe_component(name, meta)\<close>.\<close>

definition describe_component :: "python \<Rightarrow> str \<Rightarrow> component \<Rightarrow> str" where
  "describe_component py name meta =
     (let ctype = lower py (type meta);
          desc = dict_get TYPE_DESCRIPTIONS ctype type_fallback;
          parms = parameters meta;
          bits =
            (if ctype \<in> set [ascii ''input_table'', ascii ''input_file''] \<and>
                map_of parms (ascii ''filename'') \<noteq> None
             then [ascii ''It reads **'' @ path_name py (the (map_of parms (ascii ''filename''))) @
                   ascii ''**.'']
             else []) @
            (if ctype \<in> set [ascii ''output_table'', ascii ''output_file''] \<and>
                map_of parms (ascii ''filename'') \<noteq> None
             then [ascii ''It produces **'' @ path_name py (the (map_of parms (ascii ''filename''))) @
                   ascii ''**.'']
             else []) @
            (if ctype = ascii ''filter'' \<and> map_of parms (ascii ''transform'') \<noteq> None
             then [ascii ''Filtering condition is defined in the `transform` expression.'']
             else []) @
            (if ctype = ascii ''join'' \<and> map_of parms (ascii ''keys'') \<noteq> None
             then [ascii ''Join keys: *'' @ the (map_of parms (ascii ''keys'')) @ ascii ''*.'']
             else [])
      in join_space (desc # bits))"

definition friendly_param :: "python \<Rightarrow> str \<Rightarrow> str" where
  "friendly_param py pname =
     dict_get PARAM_FRIENDLY (lower py pname) (title py (replace_underscore pname))"

text \<open>The table and the lookup \<open>describe_component_type\<close> of abinitiotodoc.py.\<close>

definition TYPE_DESCRIPTIONS' :: "(str \<times> str) list" where
  "TYPE_DESCRIPTIONS' =
    [(ascii ''input_table'', ascii ''Reads structured data from a flat or delimited file.''),
     (ascii ''output_table'', ascii ''Writes structured data to a flat or delimited file.''),
     (ascii ''reformat'', ascii ''Transforms each input record to a new format or structure.''),
     (ascii ''filter'', ascii ''Filters out records that do not satisfy a given condition.''),
     (ascii ''join'',
        ascii ''Combines records from two or more inputs based on matching keys.'')]"

definition describe_component_type :: "python \<Rightarrow> str \<Rightarrow> str" where
  "describe_component_type py component_type =
     dict_get TYPE_DESCRIPTIONS' (lower py component_type)
       (ascii ''Performs a specific transformation or action within the graph.'')"

section \<open>Facts about the patterns\<close>

lemmas eval_re = re_match_def graph_re_def component_re_def parameter_re_def connect_re_def
  lits_def spaces_def quoted_def ascii_def strip_def isspace_def push_def
  group1_def groups2_def

lemma length_push:
  "push g acc r = Some ts \<Longrightarrow> (\<And>ts'. r = Some ts' \<Longrightarrow> length ts' = n) \<Longrightarrow>
   length ts = (if g then Suc n else n)"
  by (cases g) (auto simp: push_def)

text \<open>A match returns one text per capturing group of the pattern.\<close>

lemma rmatch_arity:
  "rmatch items s acc = Some ts \<Longrightarrow> length ts = length (filter capturing items)"
proof (induction items s acc arbitrary: ts rule: rmatch.induct)
  case (1 s acc)
  then show ?case by simp
next
  case (2 "is" s acc)
  then show ?case by (simp split: if_splits)
next
  case (4 c g "is" x xs acc)
  then show ?case by (auto split: if_splits dest: length_push)
next
  case (5 c g "is" acc)
  then show ?case by (auto dest: length_push)
next
  case (6 c g "is" x xs acc)
  then show ?case
    by (auto split: if_splits option.splits dest: length_push)
next
  case (8 c g "is" x xs acc)
  then show ?case by (simp split: if_splits)
next
  case (9 c g "is" acc)
  then show ?case by (auto dest: length_push)
next
  case (10 c g "is" x xs acc)
  then show ?case
    by (auto split: if_splits option.splits dest: length_push)
next
  case (12 c g "is" x xs acc)
  then show ?case by (simp split: if_splits)
next
  case (13 c g "is" acc)
  then show ?case by (auto dest: length_push)
next
  case (14 c g "is" x xs acc)
  then show ?case
    by (auto split: if_splits option.splits dest: length_push)
qed simp_all

lemma group1_None [simp]: "group1 None = None"
  by (simp add: group1_def)

lemma groups2_None [simp]: "groups2 None = None"
  by (simp add: groups2_def)

lemma group1_Some: "group1 m = Some a \<Longrightarrow> m = Some [a]"
  by (auto simp: group1_def split: option.splits list.splits)

lemma groups2_Some: "groups2 m = Some (a, b) \<Longrightarrow> m = Some [a, b]"
  by (auto simp: groups2_def split: option.splits list.splits)

text \<open>
  The patterns have one or two groups, so \<open>group1\<close> and \<open>groups2\<close> are \<open>None\<close> only
  when the match is.
\<close>

lemma group1_graph_re: "group1 (re_match graph_re s) = None \<longleftrightarrow> re_match graph_re s = None"
proof (cases "re_match graph_re s")
  case (Some ts)
  then have "length ts = 1"
    by (auto simp: re_match_def graph_re_def lits_def spaces_def quoted_def dest!: rmatch_arity)
  then obtain a where "ts = [a]" by (cases ts) auto
  with Some show ?thesis by (simp add: group1_def)
qed simp

lemma groups2_two:
  assumes "length (filter capturing rx) = 2"
  shows "groups2 (re_match rx s) = None \<longleftrightarrow> re_match rx s = None"
proof (cases "re_match rx s")
  case (Some ts)
  then have "length ts = 2"
    using assms by (auto simp: re_match_def dest!: rmatch_arity)
  then obtain a b where "ts = [a, b]"
    by (cases ts; cases "tl ts") auto
  with Some show ?thesis by (simp add: groups2_def)
qed simp

lemma no_shape_iff:
  "no_shape raw \<longleftrightarrow>
     graph_decl raw = None \<and> component_decl raw = None \<and> parameter_decl raw = None \<and>
     connect_decl raw = None"
proof -
  have c: "length (filter capturing component_re) = 2"
    by (simp add: component_re_def lits_def spaces_def quoted_def)
  have p: "length (filter capturing parameter_re) = 2"
    by (simp add: parameter_re_def lits_def spaces_def quoted_def)
  have n: "length (filter capturing connect_re) = 2"
    by (simp add: connect_re_def lits_def spaces_def quoted_def)
  show ?thesis
    by (simp add: no_shape_def graph_decl_def component_decl_def parameter_decl_def
        connect_decl_def group1_graph_re groups2_two[OF c] groups2_two[OF p] groups2_two[OF n])
qed

text \<open>A pattern that begins with literal characters matches only strings that begin with them.\<close>

lemma rmatch_lits:
  "rmatch (lits p @ items) s [] =
     (if startswith s (ascii p) then rmatch items (drop (length p) s) [] else None)"
proof (induction p arbitrary: s)
  case Nil
  then show ?case by (simp add: lits_def ascii_def startswith_def)
next
  case (Cons a p)
  have step: "rmatch (lits (a # p) @ items) s [] =
      (case s of [] \<Rightarrow> None
       | x # xs \<Rightarrow> if x = of_char a then rmatch (lits p @ items) xs [] else None)"
    by (cases s) (simp_all add: lits_def push_def)
  show ?case
    unfolding step using Cons.IH
    by (cases s) (auto simp: ascii_def startswith_def)
qed

lemma re_match_lits_startswith:
  "re_match (lits p @ items) s = Some ts \<Longrightarrow> startswith s (ascii p)"
  by (simp add: re_match_def rmatch_lits split: if_splits)

lemma startswith_both:
  assumes "startswith s p" and "startswith s q"
  shows "take (min (length p) (length q)) p = take (min (length p) (length q)) q"
proof -
  have "take (min (length p) (length q)) p = take (min (length p) (length q)) (take (length p) s)"
    using assms(1) by (simp add: startswith_def)
  also have "\<dots> = take (min (length p) (length q)) (take (length q) s)"
    by (simp add: min.commute)
  also have "\<dots> = take (min (length p) (length q)) q"
    using assms(2) by (simp add: startswith_def)
  finally show ?thesis .
qed

text \<open>The four keywords exclude each other as prefixes.\<close>

lemma component_not_graph:
  "startswith s (ascii ''component'') \<Longrightarrow> \<not> startswith s (ascii ''graph'')"
  by (auto dest: startswith_both simp: ascii_def)

lemma parameter_not_graph:
  "startswith s (ascii ''parameter'') \<Longrightarrow> \<not> startswith s (ascii ''graph'')"
  by (auto dest: startswith_both simp: ascii_def)

lemma parameter_not_component:
  "startswith s (ascii ''parameter'') \<Longrightarrow> \<not> startswith s (ascii ''component'')"
  by (auto dest: startswith_both simp: ascii_def)

lemma connect_not_graph:
  "startswith s (ascii ''connect'') \<Longrightarrow> \<not> startswith s (ascii ''graph'')"
  by (auto dest: startswith_both simp: ascii_def)

lemma connect_not_component:
  "startswith s (ascii ''connect'') \<Longrightarrow> \<not> startswith s (ascii ''component'')"
  by (auto dest: startswith_both simp: ascii_def)

lemma connect_not_parameter:
  "startswith s (ascii ''connect'') \<Longrightarrow> \<not> startswith s (ascii ''parameter'')"
  by (auto dest: startswith_both simp: ascii_def)

lemma graph_decl_startswith:
  "graph_decl raw = Some name \<Longrightarrow> startswith (strip raw) (ascii ''graph'')"
  by (auto simp: graph_decl_def graph_re_def dest!: group1_Some re_match_lits_startswith)

lemma component_decl_startswith:
  "component_decl raw = Some nt \<Longrightarrow> startswith (strip raw) (ascii ''component'')"
  by (cases nt)
     (auto simp: component_decl_def component_re_def dest!: groups2_Some re_match_lits_startswith)

lemma parameter_decl_startswith:
  "parameter_decl raw = Some pv \<Longrightarrow> startswith (strip raw) (ascii ''parameter'')"
  by (cases pv)
     (auto simp: parameter_decl_def parameter_re_def dest!: groups2_Some re_match_lits_startswith)

lemma connect_decl_startswith:
  "connect_decl raw = Some sd \<Longrightarrow> startswith (strip raw) (ascii ''connect'')"
  by (cases sd)
     (auto simp: connect_decl_def connect_re_def dest!: groups2_Some re_match_lits_startswith)

section \<open>Facts about the parser\<close>

lemma parse_line_no_shape: "no_shape raw \<Longrightarrow> parse_line st raw = Inr st"
  by (simp add: parse_line_def no_shape_def Let_def)

lemma parse_line_graph:
  assumes "graph_decl raw = Some name"
  shows "parse_line (g, cur) raw = Inr (g\<lparr>graph_name := name\<rparr>, cur)"
  using assms graph_decl_startswith[OF assms]
  by (simp add: parse_line_def Let_def graph_decl_def)

lemma parse_line_component:
  assumes "component_decl raw = Some (name, ctype)"
  shows "parse_line (g, cur) raw =
    Inr (g\<lparr>components := AList.update name \<lparr>type = ctype, parameters = []\<rparr> (components g)\<rparr>,
         Some name)"
  using assms component_decl_startswith[OF assms]
  by (simp add: parse_line_def Let_def component_decl_def component_not_graph)

lemma parse_line_parameter:
  assumes "parameter_decl raw = Some (pname, pval)" and "truthy cur"
    and "map_of (components g) (the cur) = Some meta"
  shows "parse_line (g, cur) raw =
    Inr (g\<lparr>components := AList.update (the cur)
              (meta\<lparr>parameters := AList.update pname pval (parameters meta)\<rparr>) (components g)\<rparr>,
         cur)"
  using assms parameter_decl_startswith[OF assms(1)]
  by (simp add: parse_line_def Let_def parameter_decl_def parameter_not_graph
      parameter_not_component)

lemma parse_line_parameter_ignored:
  assumes "parameter_decl raw = Some pv" and "\<not> truthy cur"
  shows "parse_line (g, cur) raw = Inr (g, cur)"
proof -
  have p: "startswith (strip raw) (ascii ''parameter'')"
    by (rule parameter_decl_startswith[OF assms(1)])
  have "\<not> startswith (strip raw) (ascii ''connect'')"
    using p connect_not_parameter by blast
  with p assms(2) show ?thesis
    by (simp add: parse_line_def Let_def parameter_not_graph parameter_not_component)
qed

lemma parse_line_connect:
  assumes "connect_decl raw = Some (src, dst)"
  shows "parse_line (g, cur) raw = Inr (g\<lparr>connections := connections g @ [(src, dst)]\<rparr>, cur)"
  using assms connect_decl_startswith[OF assms]
  by (simp add: parse_line_def Let_def connect_decl_def connect_not_graph connect_not_component
      connect_not_parameter)

lemma parse_line_shapeless:
  assumes "graph_decl raw = None" "component_decl raw = None" "parameter_decl raw = None"
    "connect_decl raw = None"
  shows "parse_line st raw = Inr st"
  using assms
  by (simp add: parse_line_def Let_def graph_decl_def component_decl_def parameter_decl_def
      connect_decl_def)

lemma parse_line_parameter_KeyError:
  assumes "parameter_decl raw = Some (pname, pval)" and "truthy cur"
    and "map_of (components g) (the cur) = None"
  shows "parse_line (g, cur) raw = Inl (KeyError (the cur))"
  using assms parameter_decl_startswith[OF assms(1)]
  by (simp add: parse_line_def Let_def parameter_decl_def parameter_not_graph
      parameter_not_component)

lemma parse_line_cases:
  "parse_line (g, cur) raw =
    (case graph_decl raw of
       Some name \<Rightarrow> Inr (g\<lparr>graph_name := name\<rparr>, cur)
     | None \<Rightarrow>
    (case component_decl raw of
       Some (name, ctype) \<Rightarrow>
         Inr (g\<lparr>components :=
                AList.update name \<lparr>type = ctype, parameters = []\<rparr> (components g)\<rparr>, Some name)
     | None \<Rightarrow>
    (case parameter_decl raw of
       Some (pname, pval) \<Rightarrow>
         if truthy cur then
           (case map_of (components g) (the cur) of
              None \<Rightarrow> Inl (KeyError (the cur))
            | Some meta \<Rightarrow>
                Inr (g\<lparr>components := AList.update (the cur)
                       (meta\<lparr>parameters := AList.update pname pval (parameters meta)\<rparr>)
                       (components g)\<rparr>, cur))
         else Inr (g, cur)
     | None \<Rightarrow>
    (case connect_decl raw of
       Some (src, dst) \<Rightarrow> Inr (g\<lparr>connections := connections g @ [(src, dst)]\<rparr>, cur)
     | None \<Rightarrow> Inr (g, cur)))))"
proof (cases "graph_decl raw")
  case (Some name)
  then show ?thesis by (simp add: parse_line_graph)
next
  case g: None
  show ?thesis
  proof (cases "component_decl raw")
    case (Some nt)
    with g show ?thesis by (cases nt) (simp add: parse_line_component)
  next
    case c: None
    show ?thesis
    proof (cases "parameter_decl raw")
      case (Some pv)
      obtain pname pval where pv: "pv = (pname, pval)" by (cases pv)
      show ?thesis
      proof (cases "truthy cur")
        case True
        with g c Some pv show ?thesis
          by (cases "map_of (components g) (the cur)")
             (simp_all add: parse_line_parameter parse_line_parameter_KeyError)
      next
        case False
        with g c Some pv show ?thesis by (simp add: parse_line_parameter_ignored)
      qed
    next
      case p: None
      show ?thesis
      proof (cases "connect_decl raw")
        case (Some sd)
        with g c p show ?thesis by (cases sd) (simp add: parse_line_connect)
      next
        case None
        with g c p show ?thesis by (simp add: parse_line_shapeless)
      qed
    qed
  qed
qed

lemma parse_lines_append:
  "parse_lines st (xs @ ys) =
     (case parse_lines st xs of Inl e \<Rightarrow> Inl e | Inr st' \<Rightarrow> parse_lines st' ys)"
  by (induction xs arbitrary: st) (auto split: sum.splits)

lemma parse_line_graph_name:
  assumes "parse_line st raw = Inr st'"
  shows "graph_name (fst st') = (case graph_decl raw of None \<Rightarrow> graph_name (fst st) | Some n \<Rightarrow> n)"
proof -
  obtain g cur where st: "st = (g, cur)" by (cases st)
  from assms show ?thesis
    unfolding st parse_line_cases
    by (auto split: option.splits if_splits)
qed

lemma parse_lines_graph_name:
  assumes "parse_lines st lines = Inr st'"
  shows "graph_name (fst st') =
     (case List.map_filter graph_decl lines of [] \<Rightarrow> graph_name (fst st) | n # ns \<Rightarrow> last (n # ns))"
  using assms
proof (induction lines arbitrary: st)
  case Nil
  then show ?case by simp
next
  case (Cons raw rest)
  from Cons.prems obtain st1 where 1: "parse_line st raw = Inr st1"
    and 2: "parse_lines st1 rest = Inr st'"
    by (auto split: sum.splits)
  from Cons.IH[OF 2] parse_line_graph_name[OF 1] show ?case
    by (auto split: option.splits list.splits)
qed

lemma parse_line_total:
  assumes ok: "cur_ok st"
  shows "\<exists>st'. parse_line st raw = Inr st' \<and> cur_ok st'"
proof -
  obtain g cur where st: "st = (g, cur)" by (cases st)
  let ?line = "strip raw"
  consider (graph) "startswith ?line (ascii ''graph'')"
    | (component) "\<not> startswith ?line (ascii ''graph'')" "startswith ?line (ascii ''component'')"
    | (parameter) "\<not> startswith ?line (ascii ''graph'')" "\<not> startswith ?line (ascii ''component'')"
        "startswith ?line (ascii ''parameter'')" "truthy cur"
    | (other) "\<not> startswith ?line (ascii ''graph'')" "\<not> startswith ?line (ascii ''component'')"
        "\<not> (startswith ?line (ascii ''parameter'') \<and> truthy cur)"
    by blast
  then show ?thesis
  proof cases
    case graph
    with ok show ?thesis
      by (cases "group1 (re_match graph_re ?line)")
         (simp_all add: parse_line_def st cur_ok_def Let_def)
  next
    case component
    with ok show ?thesis
      by (cases "groups2 (re_match component_re ?line)")
         (auto simp: parse_line_def st cur_ok_def update_conv' Let_def)
  next
    case parameter
    from ok parameter obtain meta where m: "map_of (components g) (the cur) = Some meta"
      by (auto simp: cur_ok_def st)
    with ok parameter show ?thesis
      by (cases "groups2 (re_match parameter_re ?line)")
         (auto simp: parse_line_def st cur_ok_def update_conv' Let_def)
  next
    case other
    with ok show ?thesis
      by (cases "groups2 (re_match connect_re ?line)"; cases "startswith ?line (ascii ''connect'')")
         (auto simp: parse_line_def st cur_ok_def Let_def)
  qed
qed

lemma parse_lines_total:
  "cur_ok st \<Longrightarrow> \<exists>st'. parse_lines st lines = Inr st' \<and> cur_ok st'"
proof (induction lines arbitrary: st)
  case Nil
  then show ?case by simp
next
  case (Cons raw rest)
  from parse_line_total[OF Cons.prems, of raw]
  obtain st1 where 1: "parse_line st raw = Inr st1" and 2: "cur_ok st1" by blast
  from Cons.IH[OF 2] 1 show ?case by simp
qed

lemma cur_ok_initial: "cur_ok initial"
  by (simp add: cur_ok_def initial_def truthy_def)

lemma set_update_subset: "set (AList.update k v al) \<subseteq> insert (k, v) (set al)"
  by (induction al) auto

lemma count_key_distinct:
  "distinct (map fst al) \<Longrightarrow> map_of al k = Some v \<Longrightarrow>
   length (filter (\<lambda>kv. fst kv = k) al) = 1"
proof (induction al)
  case Nil
  then show ?case by simp
next
  case (Cons a al)
  show ?case
  proof (cases "fst a = k")
    case True
    with Cons.prems(1) have "k \<notin> fst ` set al" by simp
    then have "\<forall>kv \<in> set al. fst kv \<noteq> k" by (auto simp: image_iff)
    then have "filter (\<lambda>kv. fst kv = k) al = []"
      by (simp add: filter_empty_conv)
    with True show ?thesis by simp
  next
    case False
    with Cons show ?thesis by (cases a) auto
  qed
qed

lemma parse_line_distinct:
  assumes "parse_line (g, cur) raw = Inr (g', cur')" and "distinct (map fst (components g))"
  shows "distinct (map fst (components g'))"
  using assms unfolding parse_line_cases
  by (auto split: option.splits if_splits simp: distinct_update)

lemma parse_lines_distinct:
  "parse_lines st lines = Inr st' \<Longrightarrow> distinct (map fst (components (fst st))) \<Longrightarrow>
   distinct (map fst (components (fst st')))"
proof (induction lines arbitrary: st)
  case Nil
  then show ?case by simp
next
  case (Cons raw rest)
  from Cons.prems(1) obtain st1 where 1: "parse_line st raw = Inr st1"
    and 2: "parse_lines st1 rest = Inr st'"
    by (auto split: sum.splits)
  from 1 Cons.prems(2) have "distinct (map fst (components (fst st1)))"
    using parse_line_distinct[of "fst st" "snd st" raw "fst st1" "snd st1"] by simp
  from Cons.IH[OF 2 this] show ?case .
qed

lemma parse_line_entry:
  assumes step: "parse_line (g, cur) raw = Inr (g', cur')"
    and ent: "entry_from name ctype L g"
    and other: "\<forall>t. component_decl raw \<noteq> Some (name, t)"
  shows "entry_from name ctype (insert raw L) g'"
proof -
  from ent obtain meta where m: "map_of (components g) name = Some meta" "type meta = ctype"
    and ps: "\<forall>pv \<in> set (parameters meta). \<exists>l \<in> L. parameter_decl l = Some pv"
    by (auto simp: entry_from_def)
  have same: "components g' = components g \<Longrightarrow> ?thesis"
    using m ps by (auto simp: entry_from_def)
  show ?thesis
  proof (cases "graph_decl raw")
    case (Some n)
    with step have "components g' = components g" by (auto simp: parse_line_cases)
    then show ?thesis by (rule same)
  next
    case g: None
    show ?thesis
    proof (cases "component_decl raw")
      case (Some nt)
      obtain n t where nt: "nt = (n, t)" by (cases nt)
      with Some other have ne: "n \<noteq> name" by auto
      from step g Some nt have "components g' =
          AList.update n \<lparr>type = t, parameters = []\<rparr> (components g)"
        by (auto simp: parse_line_cases)
      with ne m ps show ?thesis by (auto simp: entry_from_def update_conv')
    next
      case c: None
      show ?thesis
      proof (cases "parameter_decl raw")
        case (Some pv)
        obtain p v where pv: "pv = (p, v)" by (cases pv)
        show ?thesis
        proof (cases "truthy cur \<and> the cur = name")
          case True
          with step g c Some pv m have g': "components g' = AList.update name
              (meta\<lparr>parameters := AList.update p v (parameters meta)\<rparr>) (components g)"
            by (auto simp: parse_line_cases)
          have "\<forall>pv' \<in> set (AList.update p v (parameters meta)).
              \<exists>l \<in> insert raw L. parameter_decl l = Some pv'"
            using set_update_subset[of p v "parameters meta"] ps Some pv by auto
          with g' m show ?thesis by (auto simp: entry_from_def update_conv')
        next
          case False
          show ?thesis
          proof (cases "truthy cur")
            case True
            with False have ne: "the cur \<noteq> name" by simp
            from step g c Some pv True obtain meta' where
              "components g' = AList.update (the cur) meta' (components g)"
              by (auto simp: parse_line_cases split: option.splits)
            with ne m ps show ?thesis by (auto simp: entry_from_def update_conv')
          next
            case False
            with step g c Some pv have "components g' = components g"
              by (auto simp: parse_line_cases)
            then show ?thesis by (rule same)
          qed
        qed
      next
        case p: None
        from step g c p have "components g' = components g"
          by (auto simp: parse_line_cases split: option.splits)
        then show ?thesis by (rule same)
      qed
    qed
  qed
qed

lemma parse_lines_entry:
  "parse_lines st lines = Inr st' \<Longrightarrow> entry_from name ctype L (fst st) \<Longrightarrow>
   \<forall>l \<in> set lines. \<forall>t. component_decl l \<noteq> Some (name, t) \<Longrightarrow>
   entry_from name ctype (L \<union> set lines) (fst st')"
proof (induction lines arbitrary: st L)
  case Nil
  then show ?case by simp
next
  case (Cons raw rest)
  from Cons.prems(1) obtain st1 where 1: "parse_line st raw = Inr st1"
    and 2: "parse_lines st1 rest = Inr st'"
    by (auto split: sum.splits)
  from Cons.prems(3) have o: "\<forall>t. component_decl raw \<noteq> Some (name, t)" by simp
  have "entry_from name ctype (insert raw L) (fst st1)"
    using parse_line_entry[of "fst st" "snd st" raw "fst st1" "snd st1", OF _ Cons.prems(2) o] 1
    by simp
  from Cons.IH[OF 2 this] Cons.prems(3) show ?case by simp
qed

lemma parse_lines_continue:
  "parse_lines st xs = Inr st1 \<Longrightarrow> parse_lines st (xs @ ys) = parse_lines st1 ys"
  by (simp add: parse_lines_append)

section \<open>The parameter pattern on the four variants\<close>

lemma strip_id:
  assumes "s \<noteq> []" "\<not> isspace (hd s)" "\<not> isspace (last s)"
  shows "strip s = s"
proof -
  from assms(1,2) have 1: "dropWhile isspace s = s" by (cases s) auto
  from assms(1) obtain ys y where s: "s = ys @ [y]" by (cases s rule: rev_cases) auto
  with assms(3) have "dropWhile isspace (rev s) = rev s" by simp
  with 1 show ?thesis by (simp add: strip_def)
qed

lemma isspace_consts:
  "isspace 32" "\<not> isspace 34" "\<not> isspace 61" "\<not> isspace 112" "\<not> isspace 59"
  by (simp_all add: isspace_def)

lemma closing_fails:
  "x \<noteq> 34 \<Longrightarrow> x \<noteq> 59 \<Longrightarrow> x \<noteq> 10 \<Longrightarrow> rmatch closing (x # s) [] = None"
  by (simp add: closing_def push_def)

lemma value_group:
  assumes "34 \<notin> set v" "59 \<notin> set v" "10 \<notin> set v" "rmatch closing e [] = Some []"
  shows "rmatch (Tok LazyStar Dot True # closing) (v @ e) acc = Some [acc @ v]"
  using assms(1-3)
proof (induction v arbitrary: acc)
  case Nil
  from assms(4) show ?case by (cases e) (simp_all add: push_def)
next
  case (Cons x v)
  then have "rmatch closing (x # v @ e) [] = None"
    by (intro closing_fails) auto
  with Cons show ?case by (simp add: push_def)
qed

lemma name_group:
  assumes "34 \<notin> set n" "10 \<notin> set n" "rmatch R s [] = Some ts"
  shows "rmatch (Tok LazyStar Dot True # Tok One (Lit 34) False # R) (n @ 34 # s) acc =
    Some ((acc @ n) # ts)"
  using assms(1,2)
proof (induction n arbitrary: acc)
  case Nil
  from assms(3) show ?case by (simp add: push_def)
next
  case (Cons x n)
  then show ?case by (simp add: push_def)
qed

lemma parameter_re_unfold:
  "parameter_re = lits ''parameter'' @ spaces @ quoted @ spaces @ lits ''='' @ spaces @ value_items"
  by (simp add: parameter_re_def value_items_def closing_def)

lemma closing_ends:
  "rmatch closing [] [] = Some []" "rmatch closing [34] [] = Some []"
  "rmatch closing [59] [] = Some []" "rmatch closing [34, 59] [] = Some []"
  by (simp_all add: closing_def push_def)

lemma value_quoted:
  assumes "34 \<notin> set v" "59 \<notin> set v" "10 \<notin> set v" "rmatch closing e [] = Some []"
  shows "rmatch value_items (34 # v @ e) [] = Some [v]"
  using value_group[OF assms, of "[]"] by (simp add: value_items_def push_def)

lemma value_plain:
  assumes "v \<noteq> []" "34 \<notin> set v" "59 \<notin> set v" "10 \<notin> set v" "rmatch closing e [] = Some []"
  shows "rmatch value_items (v @ e) [] = Some [v]"
proof -
  from assms(1) obtain x v' where v: "v = x # v'" by (cases v) auto
  with assms(2) have "x \<noteq> 34" by auto
  with value_group[OF assms(2-5), of "[]"] show ?thesis
    by (simp add: value_items_def push_def v)
qed

text \<open>The part of a parameter line up to the value.\<close>

lemma parameter_line:
  assumes n: "n \<noteq> []" "34 \<notin> set n" "10 \<notin> set n"
    and rest: "rest \<noteq> []" "\<not> isspace (hd rest)" "rmatch value_items rest [] = Some [v]"
  shows "re_match parameter_re (ascii ''parameter \"'' @ n @ ascii ''\" = '' @ rest) = Some [n, v]"
proof -
  from n(1) obtain x n' where nn: "n = x # n'" by (cases n) auto
  from rest(1) obtain y rest' where rr: "rest = y # rest'" by (cases rest) auto
  with rest(2) have y: "\<not> isspace y" by simp
  have after: "rmatch (spaces @ lits ''='' @ spaces @ value_items) (32 # 61 # 32 # rest) [] = Some [v]"
    using rest(3) y by (simp add: spaces_def lits_def isspace_consts push_def rr)
  have grp: "rmatch (Tok LazyStar Dot True # Tok One (Lit 34) False #
        (spaces @ lits ''='' @ spaces @ value_items)) (n' @ 34 # 32 # 61 # 32 # rest) [x] =
      Some (([x] @ n') # [v])"
    using n(2,3) by (intro name_group[OF _ _ after]) (auto simp: nn)
  have x: "x \<noteq> 10" using n(3) nn by auto
  show ?thesis
    using grp x
    by (simp add: re_match_def parameter_re_unfold lits_def spaces_def quoted_def ascii_def
        isspace_consts push_def nn)
qed

lemma parameter_decl_line:
  assumes n: "n \<noteq> []" "34 \<notin> set n" "10 \<notin> set n"
    and rest: "rest \<noteq> []" "\<not> isspace (hd rest)" "\<not> isspace (last rest)"
      "rmatch value_items rest [] = Some [v]"
  shows "parameter_decl (ascii ''parameter \"'' @ n @ ascii ''\" = '' @ rest) = Some (n, v)"
proof -
  let ?line = "ascii ''parameter \"'' @ n @ ascii ''\" = '' @ rest"
  have "hd ?line = 112" by (simp add: ascii_def)
  moreover have "last ?line = last rest" using rest(1) by simp
  moreover have "?line \<noteq> []" using rest(1) by simp
  ultimately have "strip ?line = ?line"
    using rest(3) by (intro strip_id) (simp_all only: isspace_consts not_False_eq_True)
  then show ?thesis
    by (simp add: parameter_decl_def parameter_line[OF n rest(1,2,4)] groups2_def)
qed

lemma parameter_decl_variants:
  assumes n: "n \<noteq> []" "34 \<notin> set n" "10 \<notin> set n"
    and v: "v \<noteq> []" "34 \<notin> set v" "59 \<notin> set v" "10 \<notin> set v"
      "\<not> isspace (hd v)" "\<not> isspace (last v)"
    and line: "line \<in> set (parameter_variants n v)"
  shows "parameter_decl line = Some (n, v)"
proof -
  have 1: "parameter_decl (ascii ''parameter \"'' @ n @ ascii ''\" = '' @ (34 # v @ [34, 59])) =
      Some (n, v)"
    by (rule parameter_decl_line[OF n])
       (simp_all add: isspace_consts value_quoted[OF v(2-4)] closing_ends)
  have 2: "parameter_decl (ascii ''parameter \"'' @ n @ ascii ''\" = '' @ (34 # v @ [34])) =
      Some (n, v)"
    by (rule parameter_decl_line[OF n])
       (simp_all add: isspace_consts value_quoted[OF v(2-4)] closing_ends)
  have 3: "parameter_decl (ascii ''parameter \"'' @ n @ ascii ''\" = '' @ (v @ [59])) =
      Some (n, v)"
    using v(1,5)
    by (intro parameter_decl_line[OF n])
       (simp_all add: isspace_consts value_plain[OF v(1-4)] closing_ends)
  have 4: "parameter_decl (ascii ''parameter \"'' @ n @ ascii ''\" = '' @ v) = Some (n, v)"
    using v(1,5,6) value_plain[OF v(1-4) closing_ends(1)]
    by (intro parameter_decl_line[OF n]) simp_all
  from line consider
      "line = ascii ''parameter \"'' @ n @ ascii ''\" = '' @ (34 # v @ [34, 59])"
    | "line = ascii ''parameter \"'' @ n @ ascii ''\" = '' @ (34 # v @ [34])"
    | "line = ascii ''parameter \"'' @ n @ ascii ''\" = '' @ (v @ [59])"
    | "line = ascii ''parameter \"'' @ n @ ascii ''\" = '' @ v"
    by (auto simp: parameter_variants_def ascii_def)
  then show ?thesis using 1 2 3 4 by cases simp_all
qed

section \<open>The graph pattern on a declaration line\<close>

text \<open>\<open>strip\<close> removes the whitespace around a text that neither begins nor ends with it.\<close>

lemma strip_surround:
  assumes ws: "\<forall>c \<in> set ws1. isspace c" "\<forall>c \<in> set ws2. isspace c"
    and body: "body \<noteq> []" "\<not> isspace (hd body)" "\<not> isspace (last body)"
  shows "strip (ws1 @ body @ ws2) = body"
proof -
  from ws(1) have "dropWhile isspace (ws1 @ body @ ws2) = dropWhile isspace (body @ ws2)"
    by (simp add: dropWhile_append2)
  also from body(1,2) have "\<dots> = body @ ws2" by (cases body) auto
  finally have 1: "dropWhile isspace (ws1 @ body @ ws2) = body @ ws2" .
  have "dropWhile isspace (rev ws2 @ rev body) = dropWhile isspace (rev body)"
    by (rule dropWhile_append2) (use ws(2) in simp)
  also from body(1,3) have "\<dots> = rev body" by (cases body rule: rev_cases) auto
  finally show ?thesis by (simp add: strip_def 1)
qed

text \<open>
  \<^verbatim>\<open>\s+\<close> takes a run of whitespace that ends before a character that is not
  whitespace, and whatever it takes is whitespace.
\<close>

lemma star_space_all:
  assumes "\<forall>c \<in> set sp. isspace c" "\<not> isspace x" "rmatch R (x # t) [] = Some ts"
  shows "rmatch (Tok Star Space False # R) (sp @ x # t) acc = Some ts"
  using assms(1)
proof (induction sp arbitrary: acc)
  case Nil
  from assms(2,3) show ?case by (simp add: push_def)
next
  case (Cons c sp)
  then show ?case by simp
qed

lemma star_space_split:
  assumes "rmatch (Tok Star Space False # R) s acc = Some ts"
  shows "\<exists>sp s'. s = sp @ s' \<and> (\<forall>c \<in> set sp. isspace c) \<and> rmatch R s' [] = Some ts"
  using assms
proof (induction s arbitrary: acc)
  case Nil
  then have "rmatch R [] [] = Some ts" by (simp add: push_def)
  then show ?case by simp
next
  case (Cons x xs)
  show ?case
  proof (cases "isspace x \<and> rmatch (Tok Star Space False # R) xs (acc @ [x]) \<noteq> None")
    case True
    with Cons.prems have "rmatch (Tok Star Space False # R) xs (acc @ [x]) = Some ts" by auto
    from Cons.IH[OF this] obtain sp s' where "xs = sp @ s'" "\<forall>c \<in> set sp. isspace c"
      "rmatch R s' [] = Some ts" by blast
    with True have "x # xs = (x # sp) @ s' \<and> (\<forall>c \<in> set (x # sp). isspace c) \<and>
      rmatch R s' [] = Some ts" by simp
    then show ?thesis by blast
  next
    case False
    with Cons.prems have "rmatch R (x # xs) [] = Some ts"
      by (auto simp: push_def split: if_splits option.splits)
    then have "x # xs = [] @ (x # xs) \<and> (\<forall>c \<in> set []. isspace c) \<and>
      rmatch R (x # xs) [] = Some ts" by simp
    then show ?thesis by blast
  qed
qed

text \<open>
  \<^verbatim>\<open>(.+?)"\<close> after its first character: the group ends at the first double quote, and
  it does not cross a newline.
\<close>

lemma lazy_name_split:
  assumes "rmatch [Tok LazyStar Dot True, Tok One (Lit 34) False] s acc = Some ts"
  shows "\<exists>n rest. s = n @ 34 # rest \<and> ts = [acc @ n] \<and> 34 \<notin> set n \<and> 10 \<notin> set n"
  using assms
proof (induction s arbitrary: acc)
  case Nil
  then show ?case by (simp add: push_def)
next
  case (Cons x xs)
  show ?case
  proof (cases "x = 34")
    case True
    with Cons.prems have "ts = [acc]" by (simp add: push_def)
    with True have "x # xs = [] @ 34 # xs \<and> ts = [acc @ []] \<and> 34 \<notin> set [] \<and> 10 \<notin> set []"
      by simp
    then show ?thesis by blast
  next
    case False
    with Cons.prems have x: "x \<noteq> 10"
      and r: "rmatch [Tok LazyStar Dot True, Tok One (Lit 34) False] xs (acc @ [x]) = Some ts"
      by (auto simp: push_def split: if_splits)
    from Cons.IH[OF r] obtain n rest where "xs = n @ 34 # rest" "ts = [(acc @ [x]) @ n]"
      "34 \<notin> set n" "10 \<notin> set n" by blast
    with False x have "x # xs = (x # n) @ 34 # rest \<and> ts = [acc @ (x # n)] \<and>
      34 \<notin> set (x # n) \<and> 10 \<notin> set (x # n)" by simp
    then show ?thesis by blast
  qed
qed

text \<open>
  The strings the graph pattern matches, and the group it returns: the word \<open>graph\<close>,
  whitespace, a double quote, the name, a double quote, and any rest.
\<close>

lemma graph_re_shape:
  assumes sp: "sp \<noteq> []" "\<forall>c \<in> set sp. isspace c"
    and n: "n \<noteq> []" "34 \<notin> set (tl n)" "10 \<notin> set n"
  shows "re_match graph_re (ascii ''graph'' @ sp @ [34] @ n @ [34] @ rest) = Some [n]"
proof -
  from sp(1) obtain c sp' where ss: "sp = c # sp'" by (cases sp) auto
  from n(1) obtain x n' where nn: "n = x # n'" by (cases n) auto
  from n nn have x: "x \<noteq> 10" and n': "34 \<notin> set n'" "10 \<notin> set n'" by auto
  have "rmatch [] rest [] = Some []" by simp
  from name_group[OF n' this, of "[x]"]
  have "rmatch quoted (34 # n @ 34 # rest) [] = Some [n]"
    using x by (simp add: quoted_def push_def nn)
  with sp(2) have "rmatch (Tok Star Space False # quoted) (sp' @ 34 # n @ 34 # rest) [c] = Some [n]"
    by (intro star_space_all) (simp_all add: ss isspace_consts)
  with sp(2) have "rmatch (spaces @ quoted) (sp @ 34 # n @ 34 # rest) [] = Some [n]"
    by (simp add: spaces_def ss)
  then show ?thesis
    by (simp add: re_match_def graph_re_def rmatch_lits startswith_def ascii_def)
qed

lemma graph_re_shape_only:
  assumes "re_match graph_re s = Some ts"
  shows "\<exists>sp n rest. s = ascii ''graph'' @ sp @ [34] @ n @ [34] @ rest \<and> sp \<noteq> [] \<and>
    (\<forall>c \<in> set sp. isspace c) \<and> n \<noteq> [] \<and> 34 \<notin> set (tl n) \<and> 10 \<notin> set n \<and> ts = [n]"
proof -
  from assms have p: "startswith s (ascii ''graph'')"
    and 1: "rmatch (spaces @ quoted) (drop 5 s) [] = Some ts"
    by (simp_all add: re_match_def graph_re_def rmatch_lits eval_nat_numeral split: if_splits)
  from p have "take 5 s = ascii ''graph''"
    by (simp add: startswith_def ascii_def eval_nat_numeral)
  then have s: "s = ascii ''graph'' @ drop 5 s"
    by (metis append_take_drop_id)
  from 1 obtain c xs where d: "drop 5 s = c # xs" and c: "isspace c"
    and 2: "rmatch (Tok Star Space False # quoted) xs [c] = Some ts"
    by (cases "drop 5 s") (auto simp: spaces_def split: if_splits)
  from star_space_split[OF 2] obtain sp' s' where xs: "xs = sp' @ s'"
    and sp': "\<forall>c \<in> set sp'. isspace c" and 3: "rmatch quoted s' [] = Some ts" by blast
  from 3 obtain s'' where s': "s' = 34 # s''"
    and 4: "rmatch [Tok LazyPlus Dot True, Tok One (Lit 34) False] s'' [] = Some ts"
    by (cases s') (auto simp: quoted_def push_def split: if_splits)
  from 4 obtain y ys where s'': "s'' = y # ys" and y: "y \<noteq> 10"
    and 5: "rmatch [Tok LazyStar Dot True, Tok One (Lit 34) False] ys [y] = Some ts"
    by (cases s'') (auto split: if_splits)
  from lazy_name_split[OF 5] obtain n' rest where ys: "ys = n' @ 34 # rest"
    and ts: "ts = [[y] @ n']" and n': "34 \<notin> set n'" "10 \<notin> set n'" by blast
  have "s = ascii ''graph'' @ (c # sp') @ [34] @ (y # n') @ [34] @ rest"
    using s d xs s' s'' ys by simp
  moreover have "\<forall>a \<in> set (c # sp'). isspace a" using c sp' by simp
  ultimately have "s = ascii ''graph'' @ (c # sp') @ [34] @ (y # n') @ [34] @ rest \<and> c # sp' \<noteq> [] \<and>
    (\<forall>a \<in> set (c # sp'). isspace a) \<and> y # n' \<noteq> [] \<and> 34 \<notin> set (tl (y # n')) \<and>
    10 \<notin> set (y # n') \<and> ts = [y # n']"
    using y n' ts by simp
  then show ?thesis by blast
qed

lemma graph_decl_shape:
  "graph_decl raw = Some n \<longleftrightarrow>
     (\<exists>sp rest. strip raw = ascii ''graph'' @ sp @ [34] @ n @ [34] @ rest \<and> sp \<noteq> [] \<and>
        (\<forall>c \<in> set sp. isspace c) \<and> n \<noteq> [] \<and> 34 \<notin> set (tl n) \<and> 10 \<notin> set n)"
proof
  assume "graph_decl raw = Some n"
  then have "re_match graph_re (strip raw) = Some [n]"
    by (auto simp: graph_decl_def dest: group1_Some)
  from graph_re_shape_only[OF this] show "\<exists>sp rest.
      strip raw = ascii ''graph'' @ sp @ [34] @ n @ [34] @ rest \<and> sp \<noteq> [] \<and>
      (\<forall>c \<in> set sp. isspace c) \<and> n \<noteq> [] \<and> 34 \<notin> set (tl n) \<and> 10 \<notin> set n"
    by blast
next
  assume "\<exists>sp rest. strip raw = ascii ''graph'' @ sp @ [34] @ n @ [34] @ rest \<and> sp \<noteq> [] \<and>
      (\<forall>c \<in> set sp. isspace c) \<and> n \<noteq> [] \<and> 34 \<notin> set (tl n) \<and> 10 \<notin> set n"
  then obtain sp rest where s: "strip raw = ascii ''graph'' @ sp @ [34] @ n @ [34] @ rest"
    and sp: "sp \<noteq> []" "\<forall>c \<in> set sp. isspace c"
    and n: "n \<noteq> []" "34 \<notin> set (tl n)" "10 \<notin> set n" by blast
  from graph_re_shape[OF sp n, of rest] show "graph_decl raw = Some n"
    by (simp add: graph_decl_def s group1_def)
qed

lemma graph_decl_line:
  assumes ws: "\<forall>c \<in> set ws1. isspace c" "\<forall>c \<in> set ws2. isspace c"
    and n: "n \<noteq> []" "34 \<notin> set n" "10 \<notin> set n"
  shows "graph_decl (ws1 @ ascii ''graph \"'' @ n @ ascii ''\"'' @ ws2) = Some n"
proof -
  let ?body = "ascii ''graph \"'' @ n @ ascii ''\"''"
  have "strip (ws1 @ ?body @ ws2) = ?body"
    by (rule strip_surround[OF ws]) (simp_all add: ascii_def isspace_def)
  then have s: "strip (ws1 @ ascii ''graph \"'' @ n @ ascii ''\"'' @ ws2) =
      ascii ''graph'' @ [32] @ [34] @ n @ [34] @ []"
    by (simp add: ascii_def)
  from n(2) have "34 \<notin> set (tl n)" by (cases n) auto
  from graph_re_shape[OF _ _ n(1) this n(3), of "[32]" "[]"] show ?thesis
    by (simp add: graph_decl_def s group1_def isspace_consts)
qed

text \<open>The name after the loop.\<close>

lemma map_filter_append:
  "List.map_filter f (xs @ ys) = List.map_filter f xs @ List.map_filter f ys"
  by (simp add: List.map_filter_def)

lemma map_filter_none:
  "\<forall>x \<in> set xs. f x = None \<Longrightarrow> List.map_filter f xs = []"
  by (induction xs) (simp_all add: List.map_filter_simps)

lemma parse_mp_last_graph_name:
  "\<exists>g. parse_mp lines = Inr g \<and> graph_name g = last_graph_name lines"
proof -
  from parse_lines_total[OF cur_ok_initial, of lines]
  obtain st' where 1: "parse_lines initial lines = Inr st'" by blast
  have 0: "graph_name (fst initial) = []" by (simp add: initial_def)
  from parse_lines_graph_name[OF 1] have "graph_name (fst st') = last_graph_name lines"
    unfolding 0 last_graph_name_def .
  with 1 show ?thesis by (simp add: parse_mp_def)
qed

lemma case_last:
  "(case ns @ [n] of [] \<Rightarrow> [] | a # as \<Rightarrow> last (a # as)) = n"
  by (cases ns) simp_all

lemma last_graph_name_last:
  assumes "graph_decl raw = Some n" "\<forall>l \<in> set post. graph_decl l = None"
  shows "last_graph_name (pre @ raw # post) = n"
proof -
  have "List.map_filter graph_decl (pre @ raw # post) = List.map_filter graph_decl pre @ [n]"
    using assms by (simp add: map_filter_append map_filter_none List.map_filter_simps)
  then show ?thesis
    by (simp add: last_graph_name_def case_last)
qed

lemma last_graph_name_none:
  "\<forall>l \<in> set lines. graph_decl l = None \<Longrightarrow> last_graph_name lines = []"
  by (simp add: last_graph_name_def map_filter_none)

section \<open>Facts about the flow analyzer\<close>

lemma map_of_table: "map_of (table nodes f) m = (if m \<in> set nodes then Some (f m) else None)"
  by (induction nodes) (auto simp: table_def)

lemma update_table:
  "distinct nodes \<Longrightarrow> m \<in> set nodes \<Longrightarrow>
   AList.update m v (table nodes f) = table nodes (f(m := v))"
proof (induction nodes)
  case Nil
  then show ?case by simp
next
  case (Cons a nodes)
  show ?case
  proof (cases "a = m")
    case True
    with Cons.prems have "m \<notin> set nodes" by simp
    then have "table nodes (f(m := v)) = table nodes f" by (simp add: table_def)
    with True show ?thesis by (simp add: table_def)
  next
    case False
    with Cons show ?thesis by (simp add: table_def)
  qed
qed

lemma table_cong: "(\<And>m. m \<in> set nodes \<Longrightarrow> f m = g m) \<Longrightarrow> table nodes f = table nodes g"
  by (simp add: table_def)

lemma fold_update_table:
  "distinct nodes \<Longrightarrow> fold (\<lambda>n. AList.update n 0) nodes [] = table nodes (\<lambda>m. 0)"
proof -
  have "distinct (xs @ nodes) \<Longrightarrow>
      fold (\<lambda>n. AList.update n 0) nodes (table xs (\<lambda>m. 0)) = table (xs @ nodes) (\<lambda>m. 0)" for xs
  proof (induction nodes arbitrary: xs)
    case Nil
    then show ?case by simp
  next
    case (Cons n nodes)
    have "AList.update n 0 (table xs (\<lambda>m. 0)) = table (xs @ [n]) (\<lambda>m. 0)"
      using Cons.prems by (induction xs) (auto simp: table_def)
    with Cons.IH[of "xs @ [n]"] Cons.prems show ?case by simp
  qed
  from this[of "[]"] show "distinct nodes \<Longrightarrow> ?thesis" by (simp add: table_def)
qed

text \<open>The inner loop.\<close>

lemma topo_visit_table:
  "distinct nodes \<Longrightarrow> set ms \<subseteq> set nodes \<Longrightarrow>
   topo_visit ms (table nodes f, q) =
     Inr (table nodes (\<lambda>m. f m - int (count_list ms m)), q @ released f ms)"
proof (induction ms arbitrary: f q)
  case Nil
  then show ?case by simp
next
  case (Cons m ms)
  then have m: "m \<in> set nodes" and ms: "set ms \<subseteq> set nodes" by auto
  define f' where "f' = f(m := f m - 1)"
  define q' where "q' = (if f m - 1 = 0 then q @ [m] else q)"
  have t: "table nodes (\<lambda>x. f' x - int (count_list ms x)) =
      table nodes (\<lambda>x. f x - int (count_list (m # ms) x))"
    by (rule table_cong) (simp add: f'_def)
  have r: "q' @ released f' ms = q @ released f (m # ms)"
    by (simp add: q'_def f'_def)
  have "topo_visit (m # ms) (table nodes f, q) = topo_visit ms (table nodes f', q')"
    using m Cons.prems(1) by (simp add: map_of_table update_table f'_def q'_def)
  also have "\<dots> = Inr (table nodes (\<lambda>x. f' x - int (count_list ms x)), q' @ released f' ms)"
    by (rule Cons.IH[OF Cons.prems(1) ms])
  finally show ?case unfolding t r .
qed

lemma released_props:
  "(\<And>x. x \<in> set ms \<Longrightarrow> int (count_list ms x) \<le> f x) \<Longrightarrow>
   distinct (released f ms) \<and> set (released f ms) = {x \<in> set ms. f x = int (count_list ms x)}"
proof (induction ms arbitrary: f)
  case Nil
  then show ?case by simp
next
  case (Cons m ms)
  define f' where "f' = f(m := f m - 1)"
  have f'm: "f' m = f m - 1" and f'x: "\<And>x. x \<noteq> m \<Longrightarrow> f' x = f x"
    by (simp_all add: f'_def)
  have fm: "1 + int (count_list ms m) \<le> f m" using Cons.prems[of m] by simp
  have pre: "int (count_list ms x) \<le> f' x" if "x \<in> set ms" for x
  proof (cases "x = m")
    case True
    with fm f'm show ?thesis by simp
  next
    case False
    with Cons.prems[of x] that f'x show ?thesis by simp
  qed
  from Cons.IH[of f', OF pre]
  have d: "distinct (released f' ms)"
    and s: "set (released f' ms) = {x \<in> set ms. f' x = int (count_list ms x)}"
    by auto
  have r: "released f (m # ms) = (if f m = 1 then [m] else []) @ released f' ms"
    by (simp add: f'_def)
  have target: "{x \<in> set (m # ms). f x = int (count_list (m # ms) x)} =
      (if f m = 1 + int (count_list ms m) then {m} else {}) \<union>
      {x \<in> set ms. x \<noteq> m \<and> f x = int (count_list ms x)}"
    by auto
  have s': "set (released f' ms) =
      (if m \<in> set ms \<and> f m = 1 + int (count_list ms m) then {m} else {}) \<union>
      {x \<in> set ms. x \<noteq> m \<and> f x = int (count_list ms x)}"
  proof -
    have "{x \<in> set ms. f' x = int (count_list ms x)} =
        {x \<in> set ms. x = m \<and> f' x = int (count_list ms x)} \<union>
        {x \<in> set ms. x \<noteq> m \<and> f' x = int (count_list ms x)}"
      by blast
    also have "{x \<in> set ms. x = m \<and> f' x = int (count_list ms x)} =
        (if m \<in> set ms \<and> f m = 1 + int (count_list ms m) then {m} else {})"
      using f'm by auto
    also have "{x \<in> set ms. x \<noteq> m \<and> f' x = int (count_list ms x)} =
        {x \<in> set ms. x \<noteq> m \<and> f x = int (count_list ms x)}"
      using f'x by auto
    finally show ?thesis using s by simp
  qed
  have sr: "set (released f (m # ms)) = (if f m = 1 then {m} else {}) \<union> set (released f' ms)"
    unfolding r by simp
  show ?case
  proof (cases "f m = 1")
    case True
    with fm have c0: "count_list ms m = 0" by simp
    then have nm: "m \<notin> set ms" by (simp add: count_list_0_iff)
    with s' have "m \<notin> set (released f' ms)" by simp
    with d True have "distinct (released f (m # ms))" unfolding r by simp
    moreover have "set (released f (m # ms)) =
        {x \<in> set (m # ms). f x = int (count_list (m # ms) x)}"
      unfolding sr s' target using True c0 nm by simp
    ultimately show ?thesis by (rule conjI)
  next
    case False
    have in_ms: "m \<in> set ms" if "f m = 1 + int (count_list ms m)"
    proof (rule ccontr)
      assume "m \<notin> set ms"
      then have "count_list ms m = 0" by (simp add: count_list_0_iff)
      with that False show False by simp
    qed
    have "set (released f (m # ms)) =
        {x \<in> set (m # ms). f x = int (count_list (m # ms) x)}"
    proof (cases "f m = 1 + int (count_list ms m)")
      case True
      with in_ms have "m \<in> set ms" by simp
      with True False show ?thesis unfolding sr s' target by simp
    next
      case neq: False
      with False show ?thesis unfolding sr s' target by simp
    qed
    moreover have "distinct (released f (m # ms))" unfolding r using d False by simp
    ultimately show ?thesis by (rule conjI[rotated])
  qed
qed

lemma count_outs:
  "count_list (outs edges n) m = length (filter (\<lambda>e. snd e = m \<and> fst e = n) edges)"
proof (induction edges)
  case Nil
  then show ?case by simp
next
  case (Cons e edges)
  obtain s d where e: "e = (s, d)" by (cases e)
  from Cons show ?case by (simp add: e)
qed

lemma filter_split_seen:
  assumes "n \<notin> set seen"
  shows "length (filter (\<lambda>e. snd e = m \<and> fst e \<notin> set seen) edges) =
     length (filter (\<lambda>e. snd e = m \<and> fst e \<notin> set (seen @ [n])) edges) +
     length (filter (\<lambda>e. snd e = m \<and> fst e = n) edges)"
proof (induction edges)
  case Nil
  then show ?case by simp
next
  case (Cons e edges)
  show ?case
  proof (cases "fst e = n")
    case True
    with assms Cons show ?thesis by simp
  next
    case False
    with Cons show ?thesis by simp
  qed
qed

lemma indeg_left_snoc:
  assumes "n \<notin> set seen"
  shows "indeg_left edges (seen @ [n]) m =
     indeg_left edges seen m - int (count_list (outs edges n) m)"
  unfolding indeg_left_def count_outs filter_split_seen[OF assms, of m edges]
  by simp

lemma count_outs_le:
  assumes "n \<notin> set seen"
  shows "int (count_list (outs edges n) m) \<le> indeg_left edges seen m"
proof -
  have "0 \<le> indeg_left edges (seen @ [n]) m" by (simp add: indeg_left_def)
  with indeg_left_snoc[OF assms] show ?thesis by simp
qed

lemma indeg_left_zero:
  "indeg_left edges seen m = 0 \<longleftrightarrow> (\<forall>e \<in> set edges. snd e = m \<longrightarrow> fst e \<in> set seen)"
  unfolding indeg_left_def by (simp add: filter_empty_conv)

lemma set_outs: "set (outs edges n) = {d. (n, d) \<in> set edges}"
proof (induction edges)
  case Nil
  then show ?case by simp
next
  case (Cons e edges)
  obtain s d where e: "e = (s, d)" by (cases e)
  from Cons show ?case by (auto simp: e)
qed

text \<open>The loop over the edges.\<close>

lemma topo_count_table:
  assumes "distinct nodes" "\<forall>e \<in> set edges. snd e \<in> set nodes"
  shows "\<exists>out_edges'. topo_count edges (out_edges, table nodes f) =
      Inr (out_edges',
           table nodes (\<lambda>m. f m + int (length (filter (\<lambda>e. snd e = m) edges)))) \<and>
      (\<forall>n. lookup_default out_edges' n = lookup_default out_edges n @ outs edges n)"
  using assms(2)
proof (induction edges arbitrary: out_edges f)
  case Nil
  then show ?case by simp
next
  case (Cons e edges)
  obtain src dst where e: "e = (src, dst)" by (cases e)
  with Cons.prems have dst: "dst \<in> set nodes" and rest: "\<forall>e \<in> set edges. snd e \<in> set nodes"
    by auto
  define f' where "f' = f(dst := f dst + 1)"
  define oe where "oe = AList.update src (lookup_default out_edges src @ [dst]) out_edges"
  have step: "topo_count (e # edges) (out_edges, table nodes f) =
      topo_count edges (oe, table nodes f')"
    using dst assms(1) by (simp add: e map_of_table update_table f'_def oe_def)
  from Cons.IH[OF rest, of oe f'] obtain out_edges' where
    1: "topo_count edges (oe, table nodes f') =
      Inr (out_edges', table nodes (\<lambda>m. f' m + int (length (filter (\<lambda>e. snd e = m) edges))))"
    and 2: "\<forall>n. lookup_default out_edges' n = lookup_default oe n @ outs edges n"
    by blast
  have t: "table nodes (\<lambda>m. f' m + int (length (filter (\<lambda>e. snd e = m) edges))) =
      table nodes (\<lambda>m. f m + int (length (filter (\<lambda>e. snd e = m) (e # edges))))"
    by (rule table_cong) (simp add: f'_def e)
  have l: "lookup_default oe n = lookup_default out_edges n @ (if src = n then [dst] else [])" for n
    by (simp add: oe_def lookup_default_def update_conv')
  have "\<forall>n. lookup_default out_edges' n = lookup_default out_edges n @ outs (e # edges) n"
    using 2 l by (simp add: e)
  with step 1 t show ?case by simp
qed

lemma topo_count_KeyError:
  assumes "\<exists>e \<in> set edges. snd e \<notin> fst ` set indeg"
  shows "\<exists>k. topo_count edges (out_edges, indeg) = Inl (KeyError k) \<and> k \<notin> fst ` set indeg"
  using assms
proof (induction edges arbitrary: out_edges indeg)
  case Nil
  then show ?case by simp
next
  case (Cons e edges)
  obtain src dst where e: "e = (src, dst)" by (cases e)
  show ?case
  proof (cases "map_of indeg dst")
    case None
    then have "dst \<notin> fst ` set indeg" by (simp add: map_of_eq_None_iff)
    with None show ?thesis by (simp add: e)
  next
    case (Some d)
    then have "dst \<in> fst ` set indeg" by (metis map_of_eq_None_iff option.distinct(1))
    with Cons.prems e have "\<exists>e \<in> set edges. snd e \<notin> fst ` set indeg" by auto
    moreover have keys: "fst ` set (AList.update dst (d + 1) indeg) = fst ` set indeg"
      using \<open>dst \<in> fst ` set indeg\<close> by (auto simp: dom_update)
    ultimately have "\<exists>e \<in> set edges. snd e \<notin> fst ` set (AList.update dst (d + 1) indeg)"
      by simp
    from Cons.IH[OF this] keys Some show ?thesis by (simp add: e)
  qed
qed

lemma precedes_snoc_old:
  "b \<in> set seq \<Longrightarrow> precedes (seq @ [n]) a b \<longleftrightarrow> precedes seq a b"
proof -
  assume "b \<in> set seq"
  then have "takeWhile (\<lambda>x. x \<noteq> b) (seq @ [n]) = takeWhile (\<lambda>x. x \<noteq> b) seq"
    by (induction seq) auto
  with \<open>b \<in> set seq\<close> show ?thesis by (simp add: precedes_def)
qed

lemma precedes_snoc_new:
  "n \<notin> set seq \<Longrightarrow> precedes (seq @ [n]) a n \<longleftrightarrow> a \<in> set seq"
proof -
  assume n: "n \<notin> set seq"
  then have "takeWhile (\<lambda>x. x \<noteq> n) (seq @ [n]) = seq"
    by (induction seq) auto
  then show ?thesis by (simp add: precedes_def)
qed

lemma kahn_inv_step:
  assumes dn: "distinct nodes" and dst: "\<forall>e \<in> set edges. snd e \<in> set nodes"
    and inv: "kahn_inv nodes edges (n # q) seen"
  shows "kahn_inv nodes edges
     (q @ released (indeg_left edges seen) (outs edges n)) (seen @ [n])"
proof -
  let ?f = "indeg_left edges seen"
  let ?r = "released ?f (outs edges n)"
  from inv have d: "distinct (seen @ n # q)" and sub: "set (seen @ n # q) \<subseteq> set nodes"
    and zero: "\<forall>m \<in> set nodes. m \<in> set (seen @ n # q) \<longleftrightarrow> ?f m = 0"
    and topo: "\<forall>e \<in> set edges. snd e \<in> set seen \<longrightarrow> precedes seen (fst e) (snd e)"
    by (simp_all add: kahn_inv_def)
  from d have nseen: "n \<notin> set seen" by simp
  from sub have nn: "n \<in> set nodes" by simp
  have le: "int (count_list (outs edges n) x) \<le> ?f x" for x
    by (rule count_outs_le[OF nseen])
  from released_props[of "outs edges n" ?f, OF le]
  have dr: "distinct ?r"
    and sr: "set ?r = {x \<in> set (outs edges n). ?f x = int (count_list (outs edges n) x)}"
    by auto
  have f': "indeg_left edges (seen @ [n]) m = ?f m - int (count_list (outs edges n) m)" for m
    by (rule indeg_left_snoc[OF nseen])
  have outs_nodes: "set (outs edges n) \<subseteq> set nodes"
    using dst by (auto simp: set_outs)
  have r_pos: "0 < ?f x" if "x \<in> set ?r" for x
  proof -
    from that sr have "x \<in> set (outs edges n)" and "?f x = int (count_list (outs edges n) x)"
      by auto
    moreover from this(1) have "count_list (outs edges n) x \<noteq> 0"
      by (simp add: count_list_0_iff)
    ultimately show ?thesis by simp
  qed
  have r_new: "x \<notin> set (seen @ n # q)" if "x \<in> set ?r" for x
  proof
    assume "x \<in> set (seen @ n # q)"
    moreover from this sub have "x \<in> set nodes" by blast
    ultimately have "?f x = 0" using zero by blast
    with r_pos[OF that] show False by simp
  qed
  have 1: "distinct ((seen @ [n]) @ q @ ?r)"
    using d dr r_new by auto
  have 2: "set ((seen @ [n]) @ q @ ?r) \<subseteq> set nodes"
    using sub sr outs_nodes by auto
  have 3: "m \<in> set ((seen @ [n]) @ q @ ?r) \<longleftrightarrow> indeg_left edges (seen @ [n]) m = 0"
    if m: "m \<in> set nodes" for m
  proof
    assume "m \<in> set ((seen @ [n]) @ q @ ?r)"
    then consider "m \<in> set (seen @ n # q)" | "m \<in> set ?r" by auto
    then show "indeg_left edges (seen @ [n]) m = 0"
    proof cases
      case 1
      with zero m have "?f m = 0" by blast
      moreover have "0 \<le> indeg_left edges (seen @ [n]) m" by (simp add: indeg_left_def)
      ultimately show ?thesis using f'[of m] by simp
    next
      case 2
      with sr have "?f m = int (count_list (outs edges n) m)" by simp
      then show ?thesis using f'[of m] by simp
    qed
  next
    assume z: "indeg_left edges (seen @ [n]) m = 0"
    show "m \<in> set ((seen @ [n]) @ q @ ?r)"
    proof (cases "?f m = 0")
      case True
      with zero m have "m \<in> set (seen @ n # q)" by blast
      then show ?thesis by auto
    next
      case False
      from z f'[of m] have eq: "?f m = int (count_list (outs edges n) m)" by simp
      with False have "count_list (outs edges n) m \<noteq> 0" by simp
      then have "m \<in> set (outs edges n)" by (simp add: count_list_0_iff)
      with eq sr have "m \<in> set ?r" by simp
      then show ?thesis by simp
    qed
  qed
  have 4: "precedes (seen @ [n]) (fst e) (snd e)"
    if e: "e \<in> set edges" and s: "snd e \<in> set (seen @ [n])" for e
  proof (cases "snd e \<in> set seen")
    case True
    with topo e show ?thesis by (simp add: precedes_snoc_old)
  next
    case False
    with s have sn: "snd e = n" by simp
    have "n \<in> set (seen @ n # q)" by simp
    with zero nn have "?f n = 0" by blast
    with e sn have "fst e \<in> set seen" by (auto simp: indeg_left_zero)
    with sn nseen show ?thesis by (simp add: precedes_snoc_new)
  qed
  show ?thesis
    unfolding kahn_inv_def using 1 2 3 4 by blast
qed

lemma kahn_inv_length:
  assumes "distinct nodes" "kahn_inv nodes edges q seen"
  shows "length seen + length q \<le> length nodes"
proof -
  from assms(2) have "distinct (seen @ q)" "set (seen @ q) \<subseteq> set nodes"
    by (simp_all add: kahn_inv_def)
  then have "length (seen @ q) = card (set (seen @ q))"
    using distinct_card[of "seen @ q"] by simp
  also have "\<dots> \<le> card (set nodes)"
    using \<open>set (seen @ q) \<subseteq> set nodes\<close> by (intro card_mono) auto
  also have "\<dots> = length nodes" using assms(1) by (simp add: distinct_card)
  finally show ?thesis by simp
qed

lemma topo_loop_inv:
  assumes dn: "distinct nodes" and dst: "\<forall>e \<in> set edges. snd e \<in> set nodes"
    and oe: "\<forall>n. lookup_default out_edges n = outs edges n"
  shows "kahn_inv nodes edges q seen \<Longrightarrow>
     \<exists>seq. topo_loop out_edges (table nodes (indeg_left edges seen)) q seen = Inr seq \<and>
           kahn_inv nodes edges [] seq"
proof (induction "length nodes - length seen" arbitrary: q seen rule: less_induct)
  case less
  show ?case
  proof (cases q)
    case Nil
    with less.prems show ?thesis by auto
  next
    case (Cons n q')
    let ?f = "indeg_left edges seen"
    let ?r = "released ?f (outs edges n)"
    from less.prems Cons have inv: "kahn_inv nodes edges (n # q') seen" by simp
    from inv have nseen: "n \<notin> set seen" by (simp add: kahn_inv_def)
    have sub: "set (outs edges n) \<subseteq> set nodes"
      using dst by (auto simp: set_outs)
    have t: "table nodes (\<lambda>m. ?f m - int (count_list (outs edges n) m)) =
        table nodes (indeg_left edges (seen @ [n]))"
      by (rule table_cong) (simp add: indeg_left_snoc[OF nseen])
    have visit: "topo_visit (lookup_default out_edges n) (table nodes ?f, q') =
        Inr (table nodes (indeg_left edges (seen @ [n])), q' @ ?r)"
      using topo_visit_table[OF dn sub, of ?f q'] oe t by simp
    have inv': "kahn_inv nodes edges (q' @ ?r) (seen @ [n])"
      by (rule kahn_inv_step[OF dn dst inv])
    from kahn_inv_length[OF dn inv]
    have "length nodes - length (seen @ [n]) < length nodes - length seen" by simp
    from less.hyps[OF this inv']
    obtain seq where "topo_loop out_edges (table nodes (indeg_left edges (seen @ [n])))
        (q' @ ?r) (seen @ [n]) = Inr seq" and "kahn_inv nodes edges [] seq"
      by blast
    with visit Cons show ?thesis by simp
  qed
qed

text \<open>What \<open>topological_sort\<close> returns when every edge ends in a node.\<close>

lemma topological_sort_run:
  assumes dn: "distinct nodes" and dst: "\<forall>e \<in> set edges. snd e \<in> set nodes"
  shows "\<exists>seq. kahn_inv nodes edges [] seq \<and>
     topological_sort nodes edges = Inr (if length seq = length nodes then seq else nodes)"
proof -
  let ?indeg = "table nodes (indeg_left edges [])"
  from topo_count_table[OF dn dst, of "[]" "\<lambda>m. 0"] obtain out_edges where
    count: "topo_count edges ([], table nodes (\<lambda>m. 0)) =
      Inr (out_edges, table nodes (\<lambda>m. 0 + int (length (filter (\<lambda>e. snd e = m) edges))))"
    and oe: "\<forall>n. lookup_default out_edges n = lookup_default [] n @ outs edges n"
    by blast
  have t: "table nodes (\<lambda>m. 0 + int (length (filter (\<lambda>e. snd e = m) edges))) = ?indeg"
    by (rule table_cong) (simp add: indeg_left_def)
  have oe': "\<forall>n. lookup_default out_edges n = outs edges n"
    using oe by (simp add: lookup_default_def)
  let ?q = "filter (\<lambda>n. map_of ?indeg n = Some 0) nodes"
  have q: "?q = filter (\<lambda>n. indeg_left edges [] n = 0) nodes"
    by (rule filter_cong) (simp_all add: map_of_table)
  have inv: "kahn_inv nodes edges ?q []"
    unfolding q using dn by (auto simp: kahn_inv_def)
  from topo_loop_inv[OF dn dst oe' inv] obtain seq where
    loop: "topo_loop out_edges ?indeg ?q [] = Inr seq" and fin: "kahn_inv nodes edges [] seq"
    by blast
  have "topological_sort nodes edges = Inr (if length seq = length nodes then seq else nodes)"
    unfolding topological_sort_def fold_update_table[OF dn] count t
    using loop by simp
  with fin show ?thesis by blast
qed

lemma topological_sort_total:
  assumes "distinct nodes" "\<forall>e \<in> set edges. snd e \<in> set nodes"
  shows "\<exists>seq. topological_sort nodes edges = Inr seq \<and> length seq = length nodes"
  using topological_sort_run[OF assms] by auto

lemma topological_sort_KeyError:
  assumes "distinct nodes" "\<exists>e \<in> set edges. snd e \<notin> set nodes"
  shows "\<exists>k. topological_sort nodes edges = Inl (KeyError k) \<and> k \<notin> set nodes"
proof -
  have keys: "fst ` set (table nodes (\<lambda>m. 0)) = set nodes"
    by (force simp: table_def)
  with assms(2) have "\<exists>e \<in> set edges. snd e \<notin> fst ` set (table nodes (\<lambda>m. 0))" by simp
  from topo_count_KeyError[OF this, of "[]"] keys show ?thesis
    by (auto simp: topological_sort_def fold_update_table[OF assms(1)])
qed

lemma precedes_pos:
  "precedes seq a b \<Longrightarrow>
   length (takeWhile (\<lambda>x. x \<noteq> a) seq) < length (takeWhile (\<lambda>x. x \<noteq> b) seq)"
proof (induction seq)
  case Nil
  then show ?case by (simp add: precedes_def)
next
  case (Cons x xs)
  show ?case
  proof (cases "x = b")
    case True
    with Cons.prems show ?thesis by (simp add: precedes_def)
  next
    case nb: False
    show ?thesis
    proof (cases "x = a")
      case True
      with nb show ?thesis by simp
    next
      case False
      with nb Cons.prems have "precedes xs a b" by (simp add: precedes_def)
      from Cons.IH[OF this] nb False show ?thesis by simp
    qed
  qed
qed

lemma acyclic_rank:
  assumes "\<forall>e \<in> r. f (fst e) < (f (snd e) :: nat)"
  shows "acyclic r"
proof -
  have "r \<subseteq> inv_image less_than f" using assms by (auto simp: inv_image_def)
  moreover have "wf (inv_image less_than f)" by (intro wf_inv_image wf_less_than)
  ultimately have "wf r" by (rule wf_subset[rotated])
  then show ?thesis by (rule wf_acyclic)
qed

lemma kahn_inv_final_complete:
  assumes src: "\<forall>e \<in> set edges. fst e \<in> set nodes"
    and acyc: "acyclic (set edges)"
    and inv: "kahn_inv nodes edges [] seq"
  shows "set seq = set nodes"
proof (rule ccontr)
  assume ne: "set seq \<noteq> set nodes"
  from inv have sub: "set seq \<subseteq> set nodes"
    and zero: "\<forall>m \<in> set nodes. m \<in> set seq \<longleftrightarrow> indeg_left edges seq m = 0"
    by (simp_all add: kahn_inv_def)
  from ne sub obtain x where x: "x \<in> set nodes - set seq" by blast
  have "wf (set edges)" using acyc by (intro finite_acyclic_wf) simp_all
  from wfE_min[OF this x] obtain z where z: "z \<in> set nodes - set seq"
    and zmin: "\<And>y. (y, z) \<in> set edges \<Longrightarrow> y \<notin> set nodes - set seq"
    by blast
  from z zero have "indeg_left edges seq z \<noteq> 0" by blast
  then obtain e where e: "e \<in> set edges" "snd e = z" "fst e \<notin> set seq"
    by (auto simp: indeg_left_zero)
  with src have "fst e \<in> set nodes - set seq" by simp
  moreover have "(fst e, z) \<in> set edges" using e by (metis prod.collapse)
  ultimately show False using zmin by blast
qed

lemma topological_sort_acyclic:
  assumes dn: "distinct nodes"
    and ends: "\<forall>e \<in> set edges. fst e \<in> set nodes \<and> snd e \<in> set nodes"
    and acyc: "acyclic (set edges)"
  shows "\<exists>seq. topological_sort nodes edges = Inr seq \<and> distinct seq \<and> set seq = set nodes \<and>
     (\<forall>e \<in> set edges. precedes seq (fst e) (snd e))"
proof -
  from ends have dst: "\<forall>e \<in> set edges. snd e \<in> set nodes"
    and src: "\<forall>e \<in> set edges. fst e \<in> set nodes" by auto
  from topological_sort_run[OF dn dst] obtain seq where inv: "kahn_inv nodes edges [] seq"
    and res: "topological_sort nodes edges = Inr (if length seq = length nodes then seq else nodes)"
    by blast
  have all: "set seq = set nodes" by (rule kahn_inv_final_complete[OF src acyc inv])
  from inv have ds: "distinct seq" by (simp add: kahn_inv_def)
  have "length seq = length nodes"
    using distinct_card[OF ds] distinct_card[OF dn] all by simp
  with res have "topological_sort nodes edges = Inr seq" by simp
  moreover from inv all dst have "\<forall>e \<in> set edges. precedes seq (fst e) (snd e)"
    by (simp add: kahn_inv_def)
  ultimately show ?thesis using ds all by blast
qed

lemma topological_sort_cycle:
  assumes dn: "distinct nodes" and dst: "\<forall>e \<in> set edges. snd e \<in> set nodes"
    and cyc: "\<not> acyclic (set edges \<inter> set nodes \<times> set nodes)"
  shows "topological_sort nodes edges = Inr nodes"
proof -
  from topological_sort_run[OF dn dst] obtain seq where inv: "kahn_inv nodes edges [] seq"
    and res: "topological_sort nodes edges = Inr (if length seq = length nodes then seq else nodes)"
    by blast
  have "length seq \<noteq> length nodes"
  proof
    assume len: "length seq = length nodes"
    from inv have ds: "distinct seq" and sub: "set seq \<subseteq> set nodes"
      and topo: "\<forall>e \<in> set edges. snd e \<in> set seq \<longrightarrow> precedes seq (fst e) (snd e)"
      by (simp_all add: kahn_inv_def)
    have "card (set seq) = card (set nodes)"
      using distinct_card[OF ds] distinct_card[OF dn] len by simp
    with sub have all: "set seq = set nodes" by (intro card_subset_eq) simp_all
    define rank where "rank a = length (takeWhile (\<lambda>x. x \<noteq> a) seq)" for a
    have "rank (fst e) < rank (snd e)" if e: "e \<in> set edges \<inter> set nodes \<times> set nodes" for e
    proof -
      from e have "e \<in> set edges" by simp
      moreover from e have "snd e \<in> set nodes" by (cases e) simp
      ultimately have "precedes seq (fst e) (snd e)" using topo all by simp
      then show ?thesis unfolding rank_def by (rule precedes_pos)
    qed
    then have "\<forall>e \<in> set edges \<inter> set nodes \<times> set nodes. rank (fst e) < rank (snd e)" ..
    then have "acyclic (set edges \<inter> set nodes \<times> set nodes)" by (rule acyclic_rank)
    with cyc show False by contradiction
  qed
  with res show ?thesis by simp
qed

lemma outs_filter: "outs edges n = map snd (filter (\<lambda>e. fst e = n) edges)"
proof (induction edges)
  case Nil
  then show ?case by simp
next
  case (Cons e edges)
  obtain s d where e: "e = (s, d)" by (cases e)
  from Cons show ?case by (simp add: e)
qed

lemma acyclic_single: "a \<noteq> b \<Longrightarrow> acyclic {(a, b)}"
proof -
  assume "a \<noteq> b"
  moreover have "acyclic ({} :: ('a \<times> 'a) set)" by (simp add: acyclic_def)
  ultimately show ?thesis by simp
qed

text \<open>
  The call of \<open>build_doc\<close> on a model whose component names are distinct, whose edges all
  join declared components and whose edges are acyclic: the sequence has exactly the
  declared components, and the source of every edge precedes its target.
\<close>

lemma ordered_topological:
  assumes "distinct (map fst (components g))"
    and "\<forall>e \<in> set (connections g).
           fst e \<in> fst ` set (components g) \<and> snd e \<in> fst ` set (components g)"
    and "acyclic (set (connections g))"
  shows "\<exists>seq. ordered g = Inr seq \<and> distinct seq \<and> set seq = fst ` set (components g) \<and>
     (\<forall>e \<in> set (connections g). precedes seq (fst e) (snd e))"
  using topological_sort_acyclic[of "map fst (components g)" "connections g"] assms
  by (simp add: ordered_def)

lemma ordered_topological_example:
  "distinct (map fst (components \<lparr>graph_name = [],
      components = [(ascii ''B'', \<lparr>type = ascii ''filter'', parameters = []\<rparr>),
                    (ascii ''A'', \<lparr>type = ascii ''input_table'', parameters = []\<rparr>)],
      connections = [(ascii ''A'', ascii ''B'')]\<rparr>)) \<and>
   acyclic (set (connections \<lparr>graph_name = [],
      components = [(ascii ''B'', \<lparr>type = ascii ''filter'', parameters = []\<rparr>),
                    (ascii ''A'', \<lparr>type = ascii ''input_table'', parameters = []\<rparr>)],
      connections = [(ascii ''A'', ascii ''B'')]\<rparr>)) \<and>
   ordered \<lparr>graph_name = [],
      components = [(ascii ''B'', \<lparr>type = ascii ''filter'', parameters = []\<rparr>),
                    (ascii ''A'', \<lparr>type = ascii ''input_table'', parameters = []\<rparr>)],
      connections = [(ascii ''A'', ascii ''B'')]\<rparr> = Inr [ascii ''A'', ascii ''B''] \<and>
   precedes [ascii ''A'', ascii ''B''] (ascii ''A'') (ascii ''B'')"
proof -
  let ?g = "\<lparr>graph_name = [],
      components = [(ascii ''B'', \<lparr>type = ascii ''filter'', parameters = []\<rparr>),
                    (ascii ''A'', \<lparr>type = ascii ''input_table'', parameters = []\<rparr>)],
      connections = [(ascii ''A'', ascii ''B'')]\<rparr>"
  have d: "distinct (map fst (components ?g))" by (simp add: ascii_def)
  have e: "\<forall>e \<in> set (connections ?g).
      fst e \<in> fst ` set (components ?g) \<and> snd e \<in> fst ` set (components ?g)"
    by simp
  have "acyclic {(ascii ''A'', ascii ''B'')}"
    by (rule acyclic_single) (simp add: ascii_def)
  then have a: "acyclic (set (connections ?g))" by simp
  have r: "ordered ?g = Inr [ascii ''A'', ascii ''B'']"
    by (simp add: ordered_def topological_sort_def lookup_default_def ascii_def)
  from ordered_topological[OF d e a] r
  have "precedes [ascii ''A'', ascii ''B''] (ascii ''A'') (ascii ''B'')" by simp
  with d a r show ?thesis by blast
qed

section \<open>Facts about the descriptor catalog\<close>

lemma length_title_from: "length (title_from p s) = length s"
  by (induction s arbitrary: p) simp_all

lemma lower_cp_space: "lower_cp c = 32 \<Longrightarrow> c = 32"
  by (simp add: lower_cp_def split: if_splits)

lemma upper_cp_space: "upper_cp c = 32 \<Longrightarrow> c = 32"
  by (simp add: upper_cp_def split: if_splits)

lemma upper_cp_not_lower: "\<not> (97 \<le> upper_cp c \<and> upper_cp c \<le> 122)"
proof (cases "97 \<le> c \<and> c \<le> 122")
  case True
  then have "upper_cp c = c - 32" unfolding upper_cp_def by (rule if_P)
  moreover from True have "c - 32 < 97" by arith
  ultimately show ?thesis by simp
next
  case False
  then have "upper_cp c = c" unfolding upper_cp_def by (rule if_not_P)
  with False show ?thesis by simp
qed

lemma title_from_after_space:
  "Suc i < length s \<Longrightarrow> title_from p s ! i = 32 \<Longrightarrow>
   \<not> (97 \<le> title_from p s ! Suc i \<and> title_from p s ! Suc i \<le> 122)"
proof (induction s arbitrary: p i)
  case Nil
  then show ?case by simp
next
  case (Cons c cs)
  show ?case
  proof (cases i)
    case 0
    with Cons.prems(2) have "c = 32"
      by (auto dest: lower_cp_space upper_cp_space split: if_splits)
    then have nc: "\<not> cased c" by (simp add: cased_def)
    from Cons.prems(1) 0 obtain d ds where cs: "cs = d # ds" by (cases cs) auto
    show ?thesis using upper_cp_not_lower[of d] by (simp add: 0 cs nc)
  next
    case (Suc j)
    with Cons.prems have "Suc j < length cs" "title_from (cased c) cs ! j = 32" by simp_all
    from Cons.IH[OF this] show ?thesis by (simp add: Suc)
  qed
qed

lemma titlecases_ascii_python: "titlecases ascii_python"
  unfolding titlecases_def ascii_python_def
  by (auto simp: length_title_from dest: title_from_after_space)

lemma type_fallback_after_space:
  "Suc 8 < length type_fallback" "type_fallback ! 8 = 32" "type_fallback ! Suc 8 = 97"
  by (simp_all add: type_fallback_def ascii_def)

lemma titlecases_not_type_fallback: "titlecases py \<Longrightarrow> title py s \<noteq> type_fallback"
proof
  assume t: "titlecases py" and eq: "title py s = type_fallback"
  from t have "Suc 8 < length (title py s) \<and> title py s ! 8 = 32 \<longrightarrow>
      \<not> (97 \<le> title py s ! Suc 8 \<and> title py s ! Suc 8 \<le> 122)"
    unfolding titlecases_def by blast
  then show False unfolding eq using type_fallback_after_space by simp
qed

lemma PARAM_FRIENDLY_not_type_fallback:
  "map_of PARAM_FRIENDLY k = Some v \<Longrightarrow> v \<noteq> type_fallback"
proof -
  have "\<forall>kv \<in> set PARAM_FRIENDLY. hd (snd kv) \<noteq> 80"
    by (simp add: PARAM_FRIENDLY_def ascii_def)
  moreover assume "map_of PARAM_FRIENDLY k = Some v"
  then have "(k, v) \<in> set PARAM_FRIENDLY" by (rule map_of_SomeD)
  ultimately have "hd v \<noteq> 80" by force
  moreover have "hd type_fallback = 80" by (simp add: type_fallback_def ascii_def)
  ultimately show ?thesis by auto
qed

lemma friendly_param_not_type_fallback:
  "titlecases py \<Longrightarrow> friendly_param py n \<noteq> type_fallback"
  by (cases "map_of PARAM_FRIENDLY (lower py n)")
     (simp_all add: friendly_param_def dict_get_def titlecases_not_type_fallback
        PARAM_FRIENDLY_not_type_fallback)

lemma describe_component_unknown:
  assumes "lower py (type meta) \<notin> fst ` set TYPE_DESCRIPTIONS"
  shows "describe_component py name meta = type_fallback"
proof -
  let ?t = "lower py (type meta)"
  have keys: "ascii ''input_table'' \<in> fst ` set TYPE_DESCRIPTIONS"
    "ascii ''input_file'' \<in> fst ` set TYPE_DESCRIPTIONS"
    "ascii ''output_table'' \<in> fst ` set TYPE_DESCRIPTIONS"
    "ascii ''output_file'' \<in> fst ` set TYPE_DESCRIPTIONS"
    "ascii ''filter'' \<in> fst ` set TYPE_DESCRIPTIONS"
    "ascii ''join'' \<in> fst ` set TYPE_DESCRIPTIONS"
    by (simp_all add: TYPE_DESCRIPTIONS_def)
  with assms have ne: "?t \<noteq> ascii ''input_table''" "?t \<noteq> ascii ''input_file''"
    "?t \<noteq> ascii ''output_table''" "?t \<noteq> ascii ''output_file''"
    "?t \<noteq> ascii ''filter''" "?t \<noteq> ascii ''join''"
    by metis+
  from assms have "map_of TYPE_DESCRIPTIONS ?t = None" by (simp add: map_of_eq_None_iff)
  with ne show ?thesis
    by (simp add: describe_component_def Let_def dict_get_def)
qed

text \<open>
  Every description of the type table, and the default, begins with a capital letter, and
  \<open>describe_component\<close> returns a text that begins with one of them.
\<close>

lemma hd_join_space: "desc \<noteq> [] \<Longrightarrow> hd (join_space (desc # bits)) = hd desc"
  by (cases bits) simp_all

lemma TYPE_DESCRIPTIONS_capital:
  assumes "map_of TYPE_DESCRIPTIONS k = Some v"
  shows "v \<noteq> [] \<and> hd v \<noteq> 112"
proof -
  from assms have "(k, v) \<in> set TYPE_DESCRIPTIONS" by (rule map_of_SomeD)
  then have "v \<in> snd ` set TYPE_DESCRIPTIONS" by force
  then show ?thesis
    unfolding TYPE_DESCRIPTIONS_def by (auto simp: ascii_def)
qed

lemma describe_component_capital: "hd (describe_component py name meta) \<noteq> 112"
proof -
  define desc where "desc = dict_get TYPE_DESCRIPTIONS (lower py (type meta)) type_fallback"
  have d: "desc \<noteq> [] \<and> hd desc \<noteq> 112"
  proof (cases "map_of TYPE_DESCRIPTIONS (lower py (type meta))")
    case None
    then show ?thesis by (simp add: desc_def dict_get_def type_fallback_def ascii_def)
  next
    case (Some v)
    with TYPE_DESCRIPTIONS_capital[OF Some] show ?thesis by (simp add: desc_def dict_get_def)
  qed
  have "\<exists>bits. describe_component py name meta = join_space (desc # bits)"
    unfolding describe_component_def Let_def desc_def by (rule exI) (rule refl)
  then obtain bits where "describe_component py name meta = join_space (desc # bits)" ..
  with d show ?thesis by (simp add: hd_join_space)
qed

lemma describe_component_never_phrase:
  "describe_component py name meta \<noteq> ascii ''performs a specialized data-processing step''"
proof
  assume "describe_component py name meta = ascii ''performs a specialized data-processing step''"
  then have "hd (describe_component py name meta) = 112" by (simp add: ascii_def)
  with describe_component_capital show False by blast
qed

section \<open>Sample lines\<close>

lemma sample_graph: "graph_decl (ascii ''graph \"Sample\"'') = Some (ascii ''Sample'')"
  by (simp add: graph_decl_def eval_re)

lemma sample_component_A:
  "component_decl (ascii ''component \"A\" of \"filter\"'') = Some (ascii ''A'', ascii ''filter'')"
  by (simp add: component_decl_def eval_re)

lemma sample_parameter:
  "parameter_decl (ascii ''parameter \"key\" = \"id\";'') = Some (ascii ''key'', ascii ''id'')"
  by (simp add: parameter_decl_def eval_re)

lemma sample_malformed: "no_shape (ascii ''component \"B\" of'')"
  by (simp add: no_shape_def eval_re)

lemma truthy_A: "truthy (Some (ascii ''A''))"
  by (simp add: truthy_def ascii_def)

lemma sample_component_A_join:
  "component_decl (ascii ''component \"A\" of \"join\"'') = Some (ascii ''A'', ascii ''join'')"
  by (simp add: component_decl_def eval_re)

lemma sample_parameter_plain:
  "parameter_decl (ascii ''parameter \"keys\" = k'') = Some (ascii ''keys'', ascii ''k'')"
  by (simp add: parameter_decl_def eval_re)

lemma sample_parameter_plain_component:
  "component_decl (ascii ''parameter \"keys\" = k'') = None"
  by (simp add: component_decl_def eval_re)

lemma sample_parameter_key_id:
  "ascii ''parameter \"key\" = id'' \<in> set (parameter_variants (ascii ''key'') (ascii ''id''))"
  "ascii ''parameter \"key\" = \"id\";'' \<in> set (parameter_variants (ascii ''key'') (ascii ''id''))"
  by (simp_all add: parameter_variants_def ascii_def)

lemma sample_parameter_empty_quoted:
  "parameter_decl (ascii ''parameter \"key\" = \"\";'') = Some (ascii ''key'', [])"
  by (simp add: parameter_decl_def eval_re)

lemma sample_parameter_empty_plain: "no_shape (ascii ''parameter \"key\" = '')"
  by (simp add: no_shape_def eval_re)

lemma sample_parameter_space_quoted:
  "parameter_decl (ascii ''parameter \"key\" = \" x\";'') = Some (ascii ''key'', ascii '' x'')"
  by (simp add: parameter_decl_def eval_re)

lemma sample_parameter_space_plain:
  "parameter_decl (ascii ''parameter \"key\" =  x;'') = Some (ascii ''key'', ascii ''x'')"
  by (simp add: parameter_decl_def eval_re)

lemma sample_connect:
  "connect_decl (ascii ''connect \"A\" to \"Ghost\"'') = Some (ascii ''A'', ascii ''Ghost'')"
  by (simp add: connect_decl_def eval_re)

lemma sample_not_graph:
  "graph_decl (ascii ''parameter \"key\" = \"id\";'') = None"
  "graph_decl (ascii ''component \"A\" of \"filter\"'') = None"
  "graph_decl (ascii ''graph \"\"'') = None"
  "graph_decl (ascii ''graphs \"Sample\"'') = None"
  by (simp_all add: graph_decl_def eval_re)

lemma sample_component_B:
  "component_decl (ascii ''component \"B\" of \"filter\"'') = Some (ascii ''B'', ascii ''filter'')"
  by (simp add: component_decl_def eval_re)

lemma sample_component_A_input:
  "component_decl (ascii ''component \"A\" of \"input_table\"'') =
     Some (ascii ''A'', ascii ''input_table'')"
  by (simp add: component_decl_def eval_re)

lemma sample_connect_A_B:
  "connect_decl (ascii ''connect \"A\" to \"B\"'') = Some (ascii ''A'', ascii ''B'')"
  by (simp add: connect_decl_def eval_re)

lemma sample_connect_Ghost_A:
  "connect_decl (ascii ''connect \"Ghost\" to \"A\"'') = Some (ascii ''Ghost'', ascii ''A'')"
  by (simp add: connect_decl_def eval_re)

lemma sample_lower:
  "lower ascii_python (ascii ''Mystery'') = ascii ''mystery''"
  "lower ascii_python (ascii ''MYSTERY'') = ascii ''mystery''"
  "lower ascii_python (ascii ''mystery'') = ascii ''mystery''"
  "lower ascii_python (ascii ''max_rows'') = ascii ''max_rows''"
  "lower ascii_python (ascii ''FileName'') = ascii ''filename''"
  by (simp_all add: ascii_python_def lower_cp_def ascii_def)

lemma sample_unknown:
  "ascii ''mystery'' \<notin> fst ` set TYPE_DESCRIPTIONS"
  "ascii ''max_rows'' \<notin> fst ` set PARAM_FRIENDLY"
  "map_of PARAM_FRIENDLY (ascii ''filename'') = Some (ascii ''File path'')"
  by (simp_all add: TYPE_DESCRIPTIONS_def PARAM_FRIENDLY_def ascii_def)

lemma sample_title:
  "title ascii_python (replace_underscore (ascii ''max_rows'')) = ascii ''Max Rows''"
  by (simp add: ascii_python_def replace_underscore_def ascii_def lower_cp_def upper_cp_def
      cased_def)

section \<open>Claims about the parser\<close>

text \<open>
  C9: for every input, extraction succeeds and the name of the model is the quoted string
  of the last line of the graph-declaration shape, and the empty string when no line has
  that shape. A line has the shape with the name \<open>n\<close> exactly when, trimmed, it is the
  word \<open>graph\<close>, at least one whitespace character, a double quote, the non-empty \<open>n\<close>
  with no newline in it and no double quote after its first character, a double quote, and
  any rest. So a line \<^verbatim>\<open>graph "m"\<close>, with whitespace around it or without, gives the model
  the name \<open>m\<close> when no line after it has the shape, whatever the lines before it are; and
  lines none of which has the shape give the model the empty name.
\<close>

theorem graph_name_last_declaration:
  "(\<exists>g. parse_mp lines = Inr g \<and> graph_name g = last_graph_name lines) \<and>
   (graph_decl raw = Some n \<longleftrightarrow>
      (\<exists>sp rest. strip raw = ascii ''graph'' @ sp @ [34] @ n @ [34] @ rest \<and> sp \<noteq> [] \<and>
         (\<forall>c \<in> set sp. isspace c) \<and> n \<noteq> [] \<and> 34 \<notin> set (tl n) \<and> 10 \<notin> set n)) \<and>
   ((\<forall>c \<in> set ws1. isspace c) \<and> (\<forall>c \<in> set ws2. isspace c) \<and>
    m \<noteq> [] \<and> 34 \<notin> set m \<and> 10 \<notin> set m \<and> (\<forall>l \<in> set post. graph_decl l = None) \<longrightarrow>
      (\<exists>g. parse_mp (pre @ (ws1 @ ascii ''graph \"'' @ m @ ascii ''\"'' @ ws2) # post) = Inr g \<and>
           graph_name g = m)) \<and>
   ((\<forall>l \<in> set lines. graph_decl l = None) \<longrightarrow>
      (\<exists>g. parse_mp lines = Inr g \<and> graph_name g = []))"
proof (intro conjI impI)
  show "\<exists>g. parse_mp lines = Inr g \<and> graph_name g = last_graph_name lines"
    by (rule parse_mp_last_graph_name)
next
  show "graph_decl raw = Some n \<longleftrightarrow>
      (\<exists>sp rest. strip raw = ascii ''graph'' @ sp @ [34] @ n @ [34] @ rest \<and> sp \<noteq> [] \<and>
         (\<forall>c \<in> set sp. isspace c) \<and> n \<noteq> [] \<and> 34 \<notin> set (tl n) \<and> 10 \<notin> set n)"
    by (rule graph_decl_shape)
next
  assume a: "(\<forall>c \<in> set ws1. isspace c) \<and> (\<forall>c \<in> set ws2. isspace c) \<and>
    m \<noteq> [] \<and> 34 \<notin> set m \<and> 10 \<notin> set m \<and> (\<forall>l \<in> set post. graph_decl l = None)"
  then have "graph_decl (ws1 @ ascii ''graph \"'' @ m @ ascii ''\"'' @ ws2) = Some m"
    by (intro graph_decl_line) simp_all
  from last_graph_name_last[OF this, of post pre] a
    parse_mp_last_graph_name[of "pre @ (ws1 @ ascii ''graph \"'' @ m @ ascii ''\"'' @ ws2) # post"]
  show "\<exists>g. parse_mp (pre @ (ws1 @ ascii ''graph \"'' @ m @ ascii ''\"'' @ ws2) # post) = Inr g \<and>
      graph_name g = m"
    by simp
next
  assume "\<forall>l \<in> set lines. graph_decl l = None"
  from last_graph_name_none[OF this] parse_mp_last_graph_name[of lines]
  show "\<exists>g. parse_mp lines = Inr g \<and> graph_name g = []" by simp
qed

theorem graph_name_last_declaration_witness:
  "graph_decl (ascii ''graph   \"Sample\" {'') = Some (ascii ''Sample'') \<and>
   (\<exists>g. parse_mp [ascii ''graph \"Old\"'', ascii ''  graph \"Sample\"'' @ [10],
                   ascii ''parameter \"key\" = \"id\";''] = Inr g \<and>
        graph_name g = ascii ''Sample'') \<and>
   last_graph_name [ascii ''graph \"Old\"'', ascii ''  graph \"Sample\"'' @ [10],
                   ascii ''parameter \"key\" = \"id\";''] = ascii ''Sample'' \<and>
   (\<exists>g. parse_mp [ascii ''component \"A\" of \"filter\"''] = Inr g \<and> graph_name g = [])"
proof -
  note t = graph_name_last_declaration[of
      "[ascii ''graph \"Old\"'', ascii ''  graph \"Sample\"'' @ [10],
        ascii ''parameter \"key\" = \"id\";'']"
      "ascii ''graph   \"Sample\" {''" "ascii ''Sample''"
      "ascii ''  ''" "[10]" "ascii ''Sample''" "[ascii ''parameter \"key\" = \"id\";'']"
      "[ascii ''graph \"Old\"'']"]
  note u = graph_name_last_declaration[of "[ascii ''component \"A\" of \"filter\"'']"]
  have s: "strip (ascii ''graph   \"Sample\" {'') =
      ascii ''graph'' @ ascii ''   '' @ [34] @ ascii ''Sample'' @ [34] @ ascii '' {''"
    by (simp add: strip_def ascii_def isspace_def)
  have "\<exists>sp rest. strip (ascii ''graph   \"Sample\" {'') =
      ascii ''graph'' @ sp @ [34] @ ascii ''Sample'' @ [34] @ rest \<and> sp \<noteq> [] \<and>
      (\<forall>c \<in> set sp. isspace c) \<and> ascii ''Sample'' \<noteq> [] \<and> 34 \<notin> set (tl (ascii ''Sample'')) \<and>
      10 \<notin> set (ascii ''Sample'')"
    unfolding s by (intro exI[of _ "ascii ''   ''"] exI[of _ "ascii '' {''"])
      (simp add: ascii_def isspace_consts)
  with t have 1: "graph_decl (ascii ''graph   \"Sample\" {'') = Some (ascii ''Sample'')"
    by blast
  have h: "(\<forall>c \<in> set (ascii ''  ''). isspace c) \<and> (\<forall>c \<in> set [10]. isspace c) \<and>
    ascii ''Sample'' \<noteq> [] \<and> 34 \<notin> set (ascii ''Sample'') \<and> 10 \<notin> set (ascii ''Sample'') \<and>
    (\<forall>l \<in> set [ascii ''parameter \"key\" = \"id\";'']. graph_decl l = None)"
    by (simp add: sample_not_graph) (simp add: ascii_def isspace_def)
  with t have 2: "\<exists>g. parse_mp ([ascii ''graph \"Old\"''] @
      (ascii ''  '' @ ascii ''graph \"'' @ ascii ''Sample'' @ ascii ''\"'' @ [10]) #
      [ascii ''parameter \"key\" = \"id\";'']) = Inr g \<and> graph_name g = ascii ''Sample''"
    by blast
  have e: "[ascii ''graph \"Old\"''] @
      (ascii ''  '' @ ascii ''graph \"'' @ ascii ''Sample'' @ ascii ''\"'' @ [10]) #
      [ascii ''parameter \"key\" = \"id\";''] =
      [ascii ''graph \"Old\"'', ascii ''  graph \"Sample\"'' @ [10],
       ascii ''parameter \"key\" = \"id\";'']"
    by (simp add: ascii_def)
  from 2 have 2: "\<exists>g. parse_mp [ascii ''graph \"Old\"'', ascii ''  graph \"Sample\"'' @ [10],
                   ascii ''parameter \"key\" = \"id\";''] = Inr g \<and>
        graph_name g = ascii ''Sample''"
    unfolding e .
  from t 2 have 3: "last_graph_name [ascii ''graph \"Old\"'', ascii ''  graph \"Sample\"'' @ [10],
                   ascii ''parameter \"key\" = \"id\";''] = ascii ''Sample''"
    by auto
  have "\<forall>l \<in> set [ascii ''component \"A\" of \"filter\"'']. graph_decl l = None"
    by (simp add: sample_not_graph)
  with u have 4: "\<exists>g. parse_mp [ascii ''component \"A\" of \"filter\"''] = Inr g \<and> graph_name g = []"
    by blast
  from 1 2 3 4 show ?thesis by blast
qed

text \<open>
  C10: a line that none of the four patterns matches leaves the whole state of the
  extraction as it was: the graph with its name, components and connections, and the
  current component. The lines after it are processed from the same state, so a parameter
  line after a malformed component line goes to the component that was current before.
\<close>

theorem no_shape_frame:
  "no_shape raw \<Longrightarrow>
     parse_line (g, cur) raw = Inr (g, cur) \<and>
     parse_lines (g, cur) (raw # rest) = parse_lines (g, cur) rest"
  by (simp add: parse_line_no_shape)

theorem no_shape_frame_witness:
  "no_shape (ascii ''component \"B\" of'') \<and>
   parse_lines
     (\<lparr>graph_name = [],
       components = [(ascii ''A'', \<lparr>type = ascii ''filter'', parameters = []\<rparr>)],
       connections = []\<rparr>, Some (ascii ''A''))
     [ascii ''component \"B\" of'', ascii ''parameter \"key\" = \"id\";''] =
   Inr (\<lparr>graph_name = [],
         components = [(ascii ''A'',
            \<lparr>type = ascii ''filter'', parameters = [(ascii ''key'', ascii ''id'')]\<rparr>)],
         connections = []\<rparr>, Some (ascii ''A''))"
proof -
  let ?g = "\<lparr>graph_name = [],
       components = [(ascii ''A'', \<lparr>type = ascii ''filter'', parameters = []\<rparr>)],
       connections = []\<rparr>"
  have m: "map_of (components ?g) (the (Some (ascii ''A''))) =
      Some \<lparr>type = ascii ''filter'', parameters = []\<rparr>"
    by simp
  have "parse_lines (?g, Some (ascii ''A''))
      [ascii ''component \"B\" of'', ascii ''parameter \"key\" = \"id\";''] =
    parse_lines (?g, Some (ascii ''A'')) [ascii ''parameter \"key\" = \"id\";'']"
    using no_shape_frame[OF sample_malformed] by blast
  also have "\<dots> = Inr (\<lparr>graph_name = [],
         components = [(ascii ''A'',
            \<lparr>type = ascii ''filter'', parameters = [(ascii ''key'', ascii ''id'')]\<rparr>)],
         connections = []\<rparr>, Some (ascii ''A''))"
    by (simp add: parse_line_parameter[OF sample_parameter truthy_A m])
  finally show ?thesis using sample_malformed by blast
qed

text \<open>
  C4: extraction returns a model for every sequence of lines, and a line that none of the
  four patterns matches is skipped: the model is the one extracted from the input without
  that line, whatever comes before and after it.
\<close>

theorem parse_mp_total:
  "(\<exists>g. parse_mp lines = Inr g) \<and>
   (no_shape raw \<longrightarrow> parse_mp (pre @ raw # post) = parse_mp (pre @ post))"
proof
  from parse_lines_total[OF cur_ok_initial, of lines]
  show "\<exists>g. parse_mp lines = Inr g" by (auto simp: parse_mp_def)
next
  show "no_shape raw \<longrightarrow> parse_mp (pre @ raw # post) = parse_mp (pre @ post)"
    by (auto simp: parse_mp_def parse_lines_append parse_line_no_shape split: sum.splits)
qed

theorem parse_mp_total_witness:
  "(\<exists>g. parse_mp [ascii ''component \"A\" of \"filter\"'', ascii ''component \"B\" of'',
        ascii ''parameter \"key\" = \"id\";''] = Inr g) \<and>
   no_shape (ascii ''component \"B\" of'') \<and>
   parse_mp ([ascii ''component \"A\" of \"filter\"''] @ ascii ''component \"B\" of'' #
       [ascii ''parameter \"key\" = \"id\";'']) =
     parse_mp ([ascii ''component \"A\" of \"filter\"''] @ [ascii ''parameter \"key\" = \"id\";''])"
  using parse_mp_total[of "[ascii ''component \"A\" of \"filter\"'', ascii ''component \"B\" of'',
        ascii ''parameter \"key\" = \"id\";'']" "ascii ''component \"B\" of''"
       "[ascii ''component \"A\" of \"filter\"'']" "[ascii ''parameter \"key\" = \"id\";'']"]
    sample_malformed
  by blast

text \<open>
  C5: when a component name is declared twice, the second declaration becomes the current
  component with an empty parameter map, and at the end of the input (no later line
  declaring the name again) the components have exactly one entry for the name, with the
  type of the second declaration and only parameters that lines after the second
  declaration assigned: what the window of the first declaration assigned is gone.
\<close>

theorem redeclaration_wins:
  assumes d1: "component_decl d1 = Some (name, t1)"
    and d2: "component_decl d2 = Some (name, t2)"
    and post: "\<forall>l \<in> set post. \<forall>t. component_decl l \<noteq> Some (name, t)"
  shows "\<exists>g g'.
    parse_lines initial (pre @ d1 # mid @ [d2]) = Inr (g, Some name) \<and>
    map_of (components g) name = Some \<lparr>type = t2, parameters = []\<rparr> \<and>
    length (filter (\<lambda>kv. fst kv = name) (components g)) = 1 \<and>
    parse_mp (pre @ d1 # mid @ d2 # post) = Inr g' \<and>
    length (filter (\<lambda>kv. fst kv = name) (components g')) = 1 \<and>
    (\<exists>meta. map_of (components g') name = Some meta \<and> type meta = t2 \<and>
       (\<forall>pv \<in> set (parameters meta). \<exists>l \<in> set post. parameter_decl l = Some pv))"
proof -
  from parse_lines_total[OF cur_ok_initial, of "pre @ d1 # mid"]
  obtain g0 c0 where 0: "parse_lines initial (pre @ d1 # mid) = Inr (g0, c0)"
    by (metis surj_pair)
  define g where "g = g0\<lparr>components :=
      AList.update name \<lparr>type = t2, parameters = []\<rparr> (components g0)\<rparr>"
  have step: "parse_line (g0, c0) d2 = Inr (g, Some name)"
    by (simp add: parse_line_component[OF d2] g_def)
  have 1: "parse_lines initial ((pre @ d1 # mid) @ [d2]) = Inr (g, Some name)"
    unfolding parse_lines_continue[OF 0] by (simp add: step)
  have "distinct (map fst (components (fst initial)))" by (simp add: initial_def)
  from parse_lines_distinct[OF 1 this] have dg: "distinct (map fst (components g))" by simp
  have mg: "map_of (components g) name = Some \<lparr>type = t2, parameters = []\<rparr>"
    by (simp add: g_def update_conv')
  have ok: "cur_ok (g, Some name)" by (simp add: cur_ok_def mg)
  from parse_lines_total[OF ok, of post]
  obtain g' c' where 2: "parse_lines (g, Some name) post = Inr (g', c')"
    by (metis surj_pair)
  have 3: "parse_lines initial (((pre @ d1 # mid) @ [d2]) @ post) = Inr (g', c')"
    unfolding parse_lines_continue[OF 1] by (rule 2)
  have dg': "distinct (map fst (components g'))"
    using parse_lines_distinct[OF 2] dg by simp
  have "entry_from name t2 {} (fst (g, Some name))"
    by (simp add: entry_from_def mg)
  from parse_lines_entry[OF 2 this post]
  obtain meta where m': "map_of (components g') name = Some meta" "type meta = t2"
    "\<forall>pv \<in> set (parameters meta). \<exists>l \<in> set post. parameter_decl l = Some pv"
    by (auto simp: entry_from_def)
  have "parse_mp (pre @ d1 # mid @ d2 # post) = Inr g'"
    using 3 by (simp add: parse_mp_def)
  moreover have "parse_lines initial (pre @ d1 # mid @ [d2]) = Inr (g, Some name)"
    using 1 by simp
  ultimately show ?thesis
    using mg m' count_key_distinct[OF dg mg] count_key_distinct[OF dg' m'(1)] by blast
qed

theorem redeclaration_wins_witness:
  "component_decl (ascii ''component \"A\" of \"filter\"'') = Some (ascii ''A'', ascii ''filter'') \<and>
   component_decl (ascii ''component \"A\" of \"join\"'') = Some (ascii ''A'', ascii ''join'') \<and>
   component_decl (ascii ''parameter \"keys\" = k'') = None \<and>
   (\<exists>g'. parse_mp [ascii ''component \"A\" of \"filter\"'', ascii ''parameter \"key\" = \"id\";'',
            ascii ''component \"A\" of \"join\"'', ascii ''parameter \"keys\" = k''] = Inr g' \<and>
      length (filter (\<lambda>kv. fst kv = ascii ''A'') (components g')) = 1 \<and>
      (\<exists>meta. map_of (components g') (ascii ''A'') = Some meta \<and> type meta = ascii ''join'' \<and>
         set (parameters meta) \<subseteq> {(ascii ''keys'', ascii ''k'')}))"
proof -
  have post: "\<forall>l \<in> set [ascii ''parameter \"keys\" = k'']. \<forall>t.
      component_decl l \<noteq> Some (ascii ''A'', t)"
    by (simp add: sample_parameter_plain_component)
  from redeclaration_wins[OF sample_component_A sample_component_A_join post,
      of "[]" "[ascii ''parameter \"key\" = \"id\";'']"]
  show ?thesis
    using sample_component_A sample_component_A_join sample_parameter_plain_component
    by (auto simp: sample_parameter_plain)
qed

text \<open>
  C7 (amended): for a name \<open>n\<close> that is not empty and has no double quote or newline,
  and a value \<open>v\<close> that is not empty, has no double quote, semicolon or newline and
  neither begins nor ends with whitespace, each of the four variants, processed while a
  current component exists, sets the parameter \<open>n\<close> of the current component to
  \<open>v\<close>.
\<close>

theorem parameter_variants_agree:
  assumes "n \<noteq> []" "34 \<notin> set n" "10 \<notin> set n"
    and "v \<noteq> []" "34 \<notin> set v" "59 \<notin> set v" "10 \<notin> set v"
      "\<not> isspace (hd v)" "\<not> isspace (last v)"
    and "truthy cur" "map_of (components g) (the cur) = Some meta"
    and "line \<in> set (parameter_variants n v)"
  shows "parse_line (g, cur) line =
    Inr (g\<lparr>components := AList.update (the cur)
              (meta\<lparr>parameters := AList.update n v (parameters meta)\<rparr>) (components g)\<rparr>,
         cur)"
  by (rule parse_line_parameter[OF parameter_decl_variants[OF assms(1-9,12)] assms(10,11)])

theorem parameter_variants_agree_witness:
  "ascii ''parameter \"key\" = id'' \<in> set (parameter_variants (ascii ''key'') (ascii ''id'')) \<and>
   ascii ''parameter \"key\" = \"id\";'' \<in> set (parameter_variants (ascii ''key'') (ascii ''id'')) \<and>
   parse_line
     (\<lparr>graph_name = [],
       components = [(ascii ''A'', \<lparr>type = ascii ''filter'', parameters = []\<rparr>)],
       connections = []\<rparr>, Some (ascii ''A''))
     (ascii ''parameter \"key\" = id'') =
   Inr (\<lparr>graph_name = [],
         components = [(ascii ''A'',
            \<lparr>type = ascii ''filter'', parameters = [(ascii ''key'', ascii ''id'')]\<rparr>)],
         connections = []\<rparr>, Some (ascii ''A'')) \<and>
   parse_line
     (\<lparr>graph_name = [],
       components = [(ascii ''A'', \<lparr>type = ascii ''filter'', parameters = []\<rparr>)],
       connections = []\<rparr>, Some (ascii ''A''))
     (ascii ''parameter \"key\" = \"id\";'') =
   Inr (\<lparr>graph_name = [],
         components = [(ascii ''A'',
            \<lparr>type = ascii ''filter'', parameters = [(ascii ''key'', ascii ''id'')]\<rparr>)],
         connections = []\<rparr>, Some (ascii ''A''))"
proof -
  let ?g = "\<lparr>graph_name = [],
       components = [(ascii ''A'', \<lparr>type = ascii ''filter'', parameters = []\<rparr>)],
       connections = []\<rparr>"
  have m: "map_of (components ?g) (the (Some (ascii ''A''))) =
      Some \<lparr>type = ascii ''filter'', parameters = []\<rparr>"
    by simp
  have n: "ascii ''key'' \<noteq> []" "34 \<notin> set (ascii ''key'')" "10 \<notin> set (ascii ''key'')"
    by (simp_all add: ascii_def)
  have v: "ascii ''id'' \<noteq> []" "34 \<notin> set (ascii ''id'')" "59 \<notin> set (ascii ''id'')"
    "10 \<notin> set (ascii ''id'')" "\<not> isspace (hd (ascii ''id''))" "\<not> isspace (last (ascii ''id''))"
    by (simp_all add: ascii_def isspace_def)
  show ?thesis
    using parameter_variants_agree[OF n v truthy_A m sample_parameter_key_id(1)]
      parameter_variants_agree[OF n v truthy_A m sample_parameter_key_id(2)]
      sample_parameter_key_id
    by simp
qed

text \<open>
  C7 as stated fails. With the empty value, the unquoted variant without a semicolon is
  \<^verbatim>\<open>parameter "key" = \<close>; after \<open>strip\<close> the pattern does not match it and nothing
  is assigned, while the quoted variant assigns the empty string. With a value that begins
  with a space, the quoted variant keeps the space and the unquoted one loses it to the
  greedy \<^verbatim>\<open>\s+\<close> before the value.
\<close>

theorem parameter_variants_counterexample:
  "parameter_variants (ascii ''key'') [] ! 0 = ascii ''parameter \"key\" = \"\";'' \<and>
   parameter_variants (ascii ''key'') [] ! 3 = ascii ''parameter \"key\" = '' \<and>
   parse_line
     (\<lparr>graph_name = [],
       components = [(ascii ''A'', \<lparr>type = ascii ''filter'', parameters = []\<rparr>)],
       connections = []\<rparr>, Some (ascii ''A''))
     (ascii ''parameter \"key\" = \"\";'') =
   Inr (\<lparr>graph_name = [],
         components = [(ascii ''A'',
            \<lparr>type = ascii ''filter'', parameters = [(ascii ''key'', [])]\<rparr>)],
         connections = []\<rparr>, Some (ascii ''A'')) \<and>
   parse_line
     (\<lparr>graph_name = [],
       components = [(ascii ''A'', \<lparr>type = ascii ''filter'', parameters = []\<rparr>)],
       connections = []\<rparr>, Some (ascii ''A''))
     (ascii ''parameter \"key\" = '') =
   Inr (\<lparr>graph_name = [],
         components = [(ascii ''A'', \<lparr>type = ascii ''filter'', parameters = []\<rparr>)],
         connections = []\<rparr>, Some (ascii ''A'')) \<and>
   parameter_variants (ascii ''key'') (ascii '' x'') ! 0 = ascii ''parameter \"key\" = \" x\";'' \<and>
   parameter_variants (ascii ''key'') (ascii '' x'') ! 2 = ascii ''parameter \"key\" =  x;'' \<and>
   parameter_decl (ascii ''parameter \"key\" = \" x\";'') = Some (ascii ''key'', ascii '' x'') \<and>
   parameter_decl (ascii ''parameter \"key\" =  x;'') = Some (ascii ''key'', ascii ''x'')"
proof -
  let ?g = "\<lparr>graph_name = [],
       components = [(ascii ''A'', \<lparr>type = ascii ''filter'', parameters = []\<rparr>)],
       connections = []\<rparr>"
  have m: "map_of (components ?g) (the (Some (ascii ''A''))) =
      Some \<lparr>type = ascii ''filter'', parameters = []\<rparr>"
    by simp
  have v: "parameter_variants (ascii ''key'') [] ! 0 = ascii ''parameter \"key\" = \"\";''"
    "parameter_variants (ascii ''key'') [] ! 3 = ascii ''parameter \"key\" = ''"
    "parameter_variants (ascii ''key'') (ascii '' x'') ! 0 = ascii ''parameter \"key\" = \" x\";''"
    "parameter_variants (ascii ''key'') (ascii '' x'') ! 2 = ascii ''parameter \"key\" =  x;''"
    by (simp_all add: parameter_variants_def ascii_def)
  show ?thesis
    using parse_line_parameter[OF sample_parameter_empty_quoted truthy_A m]
      parse_line_no_shape[OF sample_parameter_empty_plain, of "(?g, Some (ascii ''A''))"]
      sample_parameter_space_quoted sample_parameter_space_plain v
    by simp
qed

section \<open>Claims about the flow analyzer\<close>

text \<open>
  C8: for every model and every name, declared or not, the successor lookup returns the
  targets of the edges that start at the name, in the order of the edge list. It is a
  function of the edge list and the name alone, so neither the components nor the result of
  the ordering enter it; for the undeclared \<open>Ghost\<close> it returns the target of the
  dangling edge.
\<close>

theorem successor_lookup:
  "outs (connections g) n = map snd (filter (\<lambda>e. fst e = n) (connections g)) \<and>
   outs (es1 @ es2) n = outs es1 n @ outs es2 n \<and>
   outs [(ascii ''Ghost'', ascii ''Read_Customers'')] (ascii ''Ghost'') = [ascii ''Read_Customers'']"
  by (simp add: outs_filter)

text \<open>
  C1 fails on the code: for the input \<^verbatim>\<open>component "A" of "filter"\<close>,
  \<^verbatim>\<open>connect "A" to "Ghost"\<close> the parser returns a model with the dangling edge, and
  \<open>topological_sort\<close> raises \<open>KeyError\<close> on it at \<open>indeg[dst] += 1\<close>.
  (\<open>topological_sort_total\<close> and \<open>topological_sort_KeyError\<close> above: it returns a
  sequence as long as the nodes exactly when every edge ends in a node.)
\<close>

theorem ordered_dangling_target_raises:
  "parse_mp [ascii ''component \"A\" of \"filter\"'', ascii ''connect \"A\" to \"Ghost\"''] =
     Inr \<lparr>graph_name = [],
          components = [(ascii ''A'', \<lparr>type = ascii ''filter'', parameters = []\<rparr>)],
          connections = [(ascii ''A'', ascii ''Ghost'')]\<rparr> \<and>
   ordered \<lparr>graph_name = [],
          components = [(ascii ''A'', \<lparr>type = ascii ''filter'', parameters = []\<rparr>)],
          connections = [(ascii ''A'', ascii ''Ghost'')]\<rparr> = Inl (KeyError (ascii ''Ghost''))"
proof -
  have "parse_mp [ascii ''component \"A\" of \"filter\"'', ascii ''connect \"A\" to \"Ghost\"''] =
     Inr \<lparr>graph_name = [],
          components = [(ascii ''A'', \<lparr>type = ascii ''filter'', parameters = []\<rparr>)],
          connections = [(ascii ''A'', ascii ''Ghost'')]\<rparr>"
    by (simp add: parse_mp_def initial_def parse_line_component[OF sample_component_A]
        parse_line_connect[OF sample_connect])
  moreover have "ordered \<lparr>graph_name = [],
          components = [(ascii ''A'', \<lparr>type = ascii ''filter'', parameters = []\<rparr>)],
          connections = [(ascii ''A'', ascii ''Ghost'')]\<rparr> = Inl (KeyError (ascii ''Ghost''))"
    by (simp add: ordered_def topological_sort_def ascii_def)
  ultimately show ?thesis by (rule conjI)
qed

text \<open>
  C2 fails on the code: for the input \<^verbatim>\<open>component "B" of "filter"\<close>,
  \<^verbatim>\<open>component "A" of "input_table"\<close>, \<^verbatim>\<open>connect "A" to "B"\<close>,
  \<^verbatim>\<open>connect "Ghost" to "A"\<close> the parser returns a model whose edges are acyclic, with
  the edge from the undeclared \<open>Ghost\<close> and without it. \<open>topological_sort\<close> counts that
  edge for \<open>A\<close> at \<open>indeg[dst] += 1\<close>, and no queued node ever takes it back, so no node
  has the count zero, the queue starts empty, and the fallback that the source keeps for
  cycles returns the declaration order \<open>B\<close>, \<open>A\<close>, in which the source of the edge
  \<open>A \<rightarrow> B\<close> does not precede its target.
  (\<open>ordered_topological\<close> above: when both ends of every edge are declared and the edges
  are acyclic, the sequence is a topological order.)
\<close>

theorem ordered_dangling_source_declaration_order:
  "parse_mp [ascii ''component \"B\" of \"filter\"'', ascii ''component \"A\" of \"input_table\"'',
             ascii ''connect \"A\" to \"B\"'', ascii ''connect \"Ghost\" to \"A\"''] =
     Inr \<lparr>graph_name = [],
          components = [(ascii ''B'', \<lparr>type = ascii ''filter'', parameters = []\<rparr>),
                        (ascii ''A'', \<lparr>type = ascii ''input_table'', parameters = []\<rparr>)],
          connections = [(ascii ''A'', ascii ''B''), (ascii ''Ghost'', ascii ''A'')]\<rparr> \<and>
   acyclic (set [(ascii ''A'', ascii ''B''), (ascii ''Ghost'', ascii ''A'')]) \<and>
   acyclic (set [(ascii ''A'', ascii ''B''), (ascii ''Ghost'', ascii ''A'')]
       \<inter> set [ascii ''B'', ascii ''A''] \<times> set [ascii ''B'', ascii ''A'']) \<and>
   ordered \<lparr>graph_name = [],
          components = [(ascii ''B'', \<lparr>type = ascii ''filter'', parameters = []\<rparr>),
                        (ascii ''A'', \<lparr>type = ascii ''input_table'', parameters = []\<rparr>)],
          connections = [(ascii ''A'', ascii ''B''), (ascii ''Ghost'', ascii ''A'')]\<rparr> =
     Inr [ascii ''B'', ascii ''A''] \<and>
   \<not> precedes [ascii ''B'', ascii ''A''] (ascii ''A'') (ascii ''B'')"
proof -
  have u: "ascii ''B'' \<noteq> ascii ''A''" by (simp add: ascii_def)
  have 0: "parse_mp [ascii ''component \"B\" of \"filter\"'',
             ascii ''component \"A\" of \"input_table\"'',
             ascii ''connect \"A\" to \"B\"'', ascii ''connect \"Ghost\" to \"A\"''] =
     Inr \<lparr>graph_name = [],
          components = [(ascii ''B'', \<lparr>type = ascii ''filter'', parameters = []\<rparr>),
                        (ascii ''A'', \<lparr>type = ascii ''input_table'', parameters = []\<rparr>)],
          connections = [(ascii ''A'', ascii ''B''), (ascii ''Ghost'', ascii ''A'')]\<rparr>"
    by (simp add: parse_mp_def initial_def parse_line_component[OF sample_component_B]
        parse_line_component[OF sample_component_A_input]
        parse_line_connect[OF sample_connect_A_B] parse_line_connect[OF sample_connect_Ghost_A] u)
  define rank :: "str \<Rightarrow> nat" where
    "rank = (\<lambda>n. if n = ascii ''Ghost'' then 0 else if n = ascii ''A'' then 1 else 2)"
  have "\<forall>e \<in> set [(ascii ''A'', ascii ''B''), (ascii ''Ghost'', ascii ''A'')].
      rank (fst e) < rank (snd e)"
    by (simp add: rank_def ascii_def)
  then have 1: "acyclic (set [(ascii ''A'', ascii ''B''), (ascii ''Ghost'', ascii ''A'')])"
    by (rule acyclic_rank)
  have eq: "set [(ascii ''A'', ascii ''B''), (ascii ''Ghost'', ascii ''A'')]
       \<inter> set [ascii ''B'', ascii ''A''] \<times> set [ascii ''B'', ascii ''A''] =
       {(ascii ''A'', ascii ''B'')}"
    by (auto simp: ascii_def)
  have 2: "acyclic (set [(ascii ''A'', ascii ''B''), (ascii ''Ghost'', ascii ''A'')]
       \<inter> set [ascii ''B'', ascii ''A''] \<times> set [ascii ''B'', ascii ''A''])"
    unfolding eq by (rule acyclic_single) (simp add: ascii_def)
  have 3: "ordered \<lparr>graph_name = [],
      components = [(ascii ''B'', \<lparr>type = ascii ''filter'', parameters = []\<rparr>),
                    (ascii ''A'', \<lparr>type = ascii ''input_table'', parameters = []\<rparr>)],
      connections = [(ascii ''A'', ascii ''B''), (ascii ''Ghost'', ascii ''A'')]\<rparr> =
     Inr [ascii ''B'', ascii ''A'']"
    by (simp add: ordered_def topological_sort_def lookup_default_def ascii_def)
  have 4: "\<not> precedes [ascii ''B'', ascii ''A''] (ascii ''A'') (ascii ''B'')"
    by (simp add: precedes_def)
  from 0 1 2 3 4 show ?thesis by blast
qed

text \<open>
  C3 fails on the code: the components \<open>A\<close>, \<open>B\<close> with the edges \<open>A \<rightarrow> B\<close>,
  \<open>B \<rightarrow> A\<close> have a cycle, and with the further edge \<open>A \<rightarrow> Ghost\<close> to an undeclared
  component the ordering raises \<open>KeyError\<close> instead of returning the declaration order.
  (\<open>topological_sort_cycle\<close> above: when every edge ends in a declared component, a
  cycle among the declared components gives the declaration order.)
\<close>

theorem ordered_cycle_dangling_target_raises:
  "\<not> acyclic (set [(ascii ''A'', ascii ''B''), (ascii ''B'', ascii ''A''), (ascii ''A'', ascii ''Ghost'')]
       \<inter> set [ascii ''A'', ascii ''B''] \<times> set [ascii ''A'', ascii ''B'']) \<and>
   ordered \<lparr>graph_name = [],
          components = [(ascii ''A'', \<lparr>type = ascii ''filter'', parameters = []\<rparr>),
                        (ascii ''B'', \<lparr>type = ascii ''filter'', parameters = []\<rparr>)],
          connections = [(ascii ''A'', ascii ''B''), (ascii ''B'', ascii ''A''),
                         (ascii ''A'', ascii ''Ghost'')]\<rparr> = Inl (KeyError (ascii ''Ghost''))"
proof -
  let ?r = "set [(ascii ''A'', ascii ''B''), (ascii ''B'', ascii ''A''), (ascii ''A'', ascii ''Ghost'')]
       \<inter> set [ascii ''A'', ascii ''B''] \<times> set [ascii ''A'', ascii ''B'']"
  have ab: "(ascii ''A'', ascii ''B'') \<in> ?r" and ba: "(ascii ''B'', ascii ''A'') \<in> ?r" by simp_all
  have "(ascii ''A'', ascii ''A'') \<in> ?r\<^sup>+"
    by (rule trancl_trans[OF r_into_trancl[OF ab] r_into_trancl[OF ba]])
  then have "\<not> acyclic ?r" unfolding acyclic_def by blast
  moreover have "ordered \<lparr>graph_name = [],
          components = [(ascii ''A'', \<lparr>type = ascii ''filter'', parameters = []\<rparr>),
                        (ascii ''B'', \<lparr>type = ascii ''filter'', parameters = []\<rparr>)],
          connections = [(ascii ''A'', ascii ''B''), (ascii ''B'', ascii ''A''),
                         (ascii ''A'', ascii ''Ghost'')]\<rparr> = Inl (KeyError (ascii ''Ghost''))"
    by (simp add: ordered_def topological_sort_def lookup_default_def ascii_def)
  ultimately show ?thesis by (rule conjI)
qed

section \<open>Claims about the descriptor catalog\<close>

text \<open>
  C6 (amended): the two lookups are total functions keyed on the lower-cased string. For
  every type string whose lower-case form is not a key of the type table,
  \<open>describe_component\<close> returns the phrase
  \<^verbatim>\<open>Performs a specialised data-processing step.\<close> (with a non-breaking hyphen),
  whatever the parameters; type strings with the same lower-case form get the same
  description. For every parameter name whose lower-case form is not a key of the synonym
  table, \<open>friendly_param\<close> returns the name with underscores replaced by spaces and
  title-cased; a name whose lower-case form is a key gets the synonym, which is not the
  fallback phrase of the types; and since title-casing leaves no lower-case letter after a
  space, \<open>friendly_param\<close> never returns that phrase.
\<close>

theorem catalog_fallbacks:
  "(lower py t \<notin> fst ` set TYPE_DESCRIPTIONS \<longrightarrow>
      describe_component py name \<lparr>type = t, parameters = ps\<rparr> = type_fallback) \<and>
   (lower py t' = lower py t \<longrightarrow>
      describe_component py name \<lparr>type = t', parameters = ps\<rparr> =
      describe_component py name \<lparr>type = t, parameters = ps\<rparr>) \<and>
   (lower py n \<notin> fst ` set PARAM_FRIENDLY \<longrightarrow>
      friendly_param py n = title py (replace_underscore n)) \<and>
   (map_of PARAM_FRIENDLY (lower py n) = Some v \<longrightarrow>
      friendly_param py n = v \<and> v \<noteq> type_fallback) \<and>
   (titlecases py \<longrightarrow> friendly_param py n \<noteq> type_fallback)"
proof (intro conjI impI)
  assume "lower py t \<notin> fst ` set TYPE_DESCRIPTIONS"
  then show "describe_component py name \<lparr>type = t, parameters = ps\<rparr> = type_fallback"
    by (intro describe_component_unknown) simp
next
  assume "lower py t' = lower py t"
  then show "describe_component py name \<lparr>type = t', parameters = ps\<rparr> =
      describe_component py name \<lparr>type = t, parameters = ps\<rparr>"
    by (simp add: describe_component_def)
next
  assume "lower py n \<notin> fst ` set PARAM_FRIENDLY"
  then have "map_of PARAM_FRIENDLY (lower py n) = None" by (simp add: map_of_eq_None_iff)
  then show "friendly_param py n = title py (replace_underscore n)"
    by (simp add: friendly_param_def dict_get_def)
next
  assume "map_of PARAM_FRIENDLY (lower py n) = Some v"
  then show "friendly_param py n = v" by (simp add: friendly_param_def dict_get_def)
next
  assume "map_of PARAM_FRIENDLY (lower py n) = Some v"
  then show "v \<noteq> type_fallback" by (rule PARAM_FRIENDLY_not_type_fallback)
next
  assume "titlecases py"
  then show "friendly_param py n \<noteq> type_fallback" by (rule friendly_param_not_type_fallback)
qed

theorem catalog_fallbacks_witness:
  "titlecases ascii_python \<and>
   describe_component ascii_python [] \<lparr>type = ascii ''Mystery'',
      parameters = [(ascii ''filename'', ascii ''a.dat'')]\<rparr> = type_fallback \<and>
   describe_component ascii_python [] \<lparr>type = ascii ''MYSTERY'',
      parameters = [(ascii ''filename'', ascii ''a.dat'')]\<rparr> = type_fallback \<and>
   friendly_param ascii_python (ascii ''max_rows'') = ascii ''Max Rows'' \<and>
   friendly_param ascii_python (ascii ''FileName'') = ascii ''File path'' \<and>
   friendly_param ascii_python (ascii ''max_rows'') \<noteq> type_fallback"
proof -
  note a = catalog_fallbacks[of ascii_python "ascii ''Mystery''" "[]"
      "[(ascii ''filename'', ascii ''a.dat'')]" "ascii ''MYSTERY''" "ascii ''max_rows''"
      "ascii ''File path''"]
  note b = catalog_fallbacks[of ascii_python "ascii ''Mystery''" "[]"
      "[(ascii ''filename'', ascii ''a.dat'')]" "ascii ''MYSTERY''" "ascii ''FileName''"
      "ascii ''File path''"]
  from a have 1: "describe_component ascii_python [] \<lparr>type = ascii ''Mystery'',
      parameters = [(ascii ''filename'', ascii ''a.dat'')]\<rparr> = type_fallback"
    by (simp add: sample_lower sample_unknown)
  from a 1 have 2: "describe_component ascii_python [] \<lparr>type = ascii ''MYSTERY'',
      parameters = [(ascii ''filename'', ascii ''a.dat'')]\<rparr> = type_fallback"
    by (simp add: sample_lower)
  from a have 3: "friendly_param ascii_python (ascii ''max_rows'') = ascii ''Max Rows''"
    by (simp add: sample_lower sample_unknown sample_title)
  from b have 4: "friendly_param ascii_python (ascii ''FileName'') = ascii ''File path''"
    by (simp add: sample_lower sample_unknown)
  from a titlecases_ascii_python
  have 5: "friendly_param ascii_python (ascii ''max_rows'') \<noteq> type_fallback" by blast
  from 1 2 3 4 5 titlecases_ascii_python show ?thesis by blast
qed

text \<open>
  C6 as stated fails on the text of the phrase: for an unknown type the code returns
  \<^verbatim>\<open>Performs a specialised data-processing step.\<close>, with a capital letter, the
  spelling \<open>specialised\<close>, a non-breaking hyphen and a full stop, not the phrase of the
  specification; the lookup of abinitiotodoc.py returns a third phrase. (The type
  \<open>mystery\<close> is ASCII and in lower case, so that \<open>ascii_python\<close> lowers it as Python
  does.) Whatever \<open>str.lower()\<close> and \<open>Path(s).name\<close> are, no component at all is
  described by the phrase of the specification.
\<close>

theorem catalog_fallbacks_counterexample:
  "describe_component ascii_python [] \<lparr>type = ascii ''mystery'', parameters = []\<rparr> =
     ascii ''Performs a specialised data'' @ [8209] @ ascii ''processing step.'' \<and>
   describe_component ascii_python [] \<lparr>type = ascii ''mystery'', parameters = []\<rparr> \<noteq>
     ascii ''performs a specialized data-processing step'' \<and>
   (\<forall>py name meta. describe_component py name meta \<noteq>
     ascii ''performs a specialized data-processing step'') \<and>
   describe_component_type ascii_python (ascii ''mystery'') =
     ascii ''Performs a specific transformation or action within the graph.''"
proof -
  have 1: "describe_component ascii_python [] \<lparr>type = ascii ''mystery'', parameters = []\<rparr> =
      type_fallback"
    by (rule describe_component_unknown) (simp add: sample_lower sample_unknown)
  have 2: "type_fallback \<noteq> ascii ''performs a specialized data-processing step''"
    by (simp add: type_fallback_def ascii_def)
  have 3: "describe_component_type ascii_python (ascii ''mystery'') =
     ascii ''Performs a specific transformation or action within the graph.''"
    by (simp add: describe_component_type_def sample_lower dict_get_def TYPE_DESCRIPTIONS'_def)
       (simp add: ascii_def)
  from 1 2 3 describe_component_never_phrase show ?thesis by (simp add: type_fallback_def)
qed

end
